theory Spec2Isabelle
  imports Complex_Main "HOL-Library.Monad_Syntax"
begin

section \<open>Lyrics overlay: cue construction and playback tracking\<close>

text \<open>
  The development follows \<^verbatim>\<open>src/main.py\<close>. Python and JavaScript floating-point
  numbers are idealised as real numbers; every comparison, \<open>max\<close>, \<open>min\<close> and
  \<open>floor\<close> of the source is kept.
\<close>

subsection \<open>Cues\<close>

text \<open>The dictionaries \<^verbatim>\<open>{"start": .., "end": .., "text": ..}\<close> built by
  \<^verbatim>\<open>_build_overlay_cues\<close> and read by the player script.\<close>

record cue =
  start :: real
  end_sec :: real
  text_of :: string

subsection \<open>Rounding to milliseconds\<close>

text \<open>Python's \<^verbatim>\<open>round(x, 3)\<close>: to the nearest multiple of 0.001, a tie going to the
  even neighbour.\<close>

definition round_half_even :: "real \<Rightarrow> int" where
  "round_half_even y =
     (let f = \<lfloor>y\<rfloor>; d = y - of_int f
      in if d < 1 / 2 then f
         else if 1 / 2 < d then f + 1
         else if even f then f else f + 1)"

definition py_round3 :: "real \<Rightarrow> real" where
  "py_round3 x = of_int (round_half_even (x * 1000)) / 1000"

subsection \<open>The cue builder\<close>

text \<open>
  \<^verbatim>\<open>_build_overlay_cues(lines, seconds_per_line, synced_cues=None)\<close>.
  The synced branch walks \<^verbatim>\<open>enumerate(synced_cues)\<close>; \<^verbatim>\<open>i + 1 < len(synced_cues)\<close>
  holds exactly when a cue follows the current one.
\<close>

fun synced_loop :: "real \<Rightarrow> (real \<times> string) list \<Rightarrow> cue list" where
  "synced_loop seconds_per_line [] = []"
| "synced_loop seconds_per_line [(start_sec, txt)] =
     [\<lparr>start = py_round3 start_sec,
       end_sec = py_round3 (start_sec + max 2.0 seconds_per_line),
       text_of = txt\<rparr>]"
| "synced_loop seconds_per_line ((start_sec, txt) # (next_start, txt') # rest) =
     \<lparr>start = py_round3 start_sec,
      end_sec = py_round3 (max (start_sec + 0.15) (next_start - 0.05)),
      text_of = txt\<rparr>
     # synced_loop seconds_per_line ((next_start, txt') # rest)"

text \<open>The fixed-interval branch walks \<^verbatim>\<open>enumerate(lines)\<close>; \<open>i\<close> is the running index.\<close>

fun fixed_loop :: "real \<Rightarrow> nat \<Rightarrow> string list \<Rightarrow> cue list" where
  "fixed_loop seconds_per_line i [] = []"
| "fixed_loop seconds_per_line i (line # rest) =
     \<lparr>start = py_round3 (real i * seconds_per_line),
      end_sec = py_round3 (real (i + 1) * seconds_per_line),
      text_of = line\<rparr>
     # fixed_loop seconds_per_line (i + 1) rest"

text \<open>\<^verbatim>\<open>if synced_cues:\<close> is false for \<^verbatim>\<open>None\<close> and for the empty list.\<close>

definition build_overlay_cues ::
  "string list \<Rightarrow> real \<Rightarrow> (real \<times> string) list option \<Rightarrow> cue list" where
  "build_overlay_cues lines seconds_per_line synced_cues =
     (case synced_cues of
        Some (c # cs) \<Rightarrow> synced_loop seconds_per_line (c # cs)
      | _ \<Rightarrow> fixed_loop seconds_per_line 0 lines)"

subsection \<open>The player script: locating the active cue\<close>

text \<open>
  \<^verbatim>\<open>findCueIndex(t)\<close>: the loop variable \<open>i\<close> runs over the remaining cues; the
  fall-through is \<^verbatim>\<open>cues.length ? cues.length - 1 : -1\<close>.
\<close>

definition in_window :: "cue \<Rightarrow> real \<Rightarrow> bool" where
  "in_window c t \<longleftrightarrow> start c \<le> t \<and> t < end_sec c"

fun find_from :: "cue list \<Rightarrow> real \<Rightarrow> nat \<Rightarrow> nat option" where
  "find_from [] t i = None"
| "find_from (c # cs) t i = (if in_window c t then Some i else find_from cs t (i + 1))"

definition findCueIndex :: "cue list \<Rightarrow> real \<Rightarrow> int" where
  "findCueIndex cues t =
     (case find_from cues t 0 of
        Some i \<Rightarrow> int i
      | None \<Rightarrow> if length cues \<noteq> 0 then int (length cues) - 1 else - 1)"

subsection \<open>The player script: highlighting the active word\<close>

text \<open>
  Characters are code points below 256. Of these, JavaScript's \<^verbatim>\<open>trim()\<close> and the
  regular expression class \<^verbatim>\<open>\s\<close> treat tab, line feed, vertical tab, form feed,
  carriage return, space and no-break space as white space.
\<close>

definition js_space :: "char \<Rightarrow> bool" where
  "js_space c \<longleftrightarrow> (of_char c :: nat) \<in> {9, 10, 11, 12, 13, 32, 160}"

definition js_trim :: "string \<Rightarrow> string" where
  "js_trim s = rev (dropWhile js_space (rev (dropWhile js_space s)))"

text \<open>\<^verbatim>\<open>text.split(/\s+/)\<close>: the pieces between maximal runs of white space, empty
  pieces at either end included.\<close>

fun js_split_ws :: "string \<Rightarrow> string list" where
  "js_split_ws [] = [[]]"
| "js_split_ws (c # cs) =
     (if js_space c
      then (if cs \<noteq> [] \<and> js_space (hd cs) then js_split_ws cs else [] # js_split_ws cs)
      else (case js_split_ws cs of w # ws \<Rightarrow> (c # w) # ws | [] \<Rightarrow> [[c]]))"

text \<open>\<^verbatim>\<open>(cue.text || "").trim().split(/\s+/).filter(Boolean)\<close>\<close>

definition js_words :: "string \<Rightarrow> string list" where
  "js_words s = filter (\<lambda>w. w \<noteq> []) (js_split_ws (js_trim s))"

text \<open>\<^verbatim>\<open>esc\<close> replaces the ampersand first, then the two angle brackets; no
  replacement text contains a character still to be replaced.\<close>

definition esc :: "string \<Rightarrow> string" where
  "esc str = concat (map (\<lambda>c. if c = CHR ''&'' then ''&amp;''
                                 else if c = CHR ''<'' then ''&lt;''
                                 else if c = CHR ''>'' then ''&gt;'' else [c]) str)"

text \<open>The value of \<^verbatim>\<open>activeIdx\<close> in \<^verbatim>\<open>renderCue(cue, t)\<close> for a cue of \<open>n\<close> words.\<close>

definition activeIdx :: "cue \<Rightarrow> real \<Rightarrow> nat \<Rightarrow> int" where
  "activeIdx c t n =
     (let duration = max 0.15 (end_sec c - start c);
          progress = min 0.999 (max 0 ((t - start c) / duration))
      in min (int n - 1) \<lfloor>progress * real n\<rfloor>)"

text \<open>
  What \<^verbatim>\<open>renderCue\<close> writes into the lyric line: nothing, the escaped text, or one
  span per word, the span at \<^verbatim>\<open>activeIdx\<close> carrying the class \<^verbatim>\<open>active\<close>.
\<close>

datatype render = Cleared | Plain string | Spans "(string \<times> bool) list"

definition renderCue :: "cue \<Rightarrow> real \<Rightarrow> render" where
  "renderCue c t =
     (let txt = js_trim (text_of c) in
      if txt = [] then Cleared
      else let words = filter (\<lambda>w. w \<noteq> []) (js_split_ws txt) in
        if words = [] then Plain (esc txt)
        else Spans (map (\<lambda>(idx, w). (esc w, int idx = activeIdx c t (length words)))
                        (enumerate 0 words)))"

subsection \<open>The LRC parser\<close>

text \<open>
  \<^verbatim>\<open>parse_lrc_synced_lines\<close>. Characters are code points below 256; among them
  Python's \<^verbatim>\<open>str.strip()\<close> removes the ones for which \<^verbatim>\<open>str.isspace()\<close> holds, and the
  pattern \<^verbatim>\<open>\d\<close> matches the ten ASCII digits, which \<^verbatim>\<open>int()\<close> reads in base ten.
  The times are Python floats, idealised as reals: every time the parser computes is
  \<open>n + m / 1000\<close> for naturals \<open>n < 6100\<close> and \<open>m < 1000\<close>, and on these the floating-point
  result is ordered and compared for equality exactly as the real number is.
\<close>

definition py_space :: "char \<Rightarrow> bool" where
  "py_space c \<longleftrightarrow> c \<in> set [CHR 0x09, CHR 0x0A, CHR 0x0B, CHR 0x0C, CHR 0x0D,
                          CHR 0x1C, CHR 0x1D, CHR 0x1E, CHR 0x1F, CHR 0x20, CHR 0x85, CHR 0xA0]"

definition strip :: "string \<Rightarrow> string" where
  "strip s = rev (dropWhile py_space (rev (dropWhile py_space s)))"

definition is_digit :: "char \<Rightarrow> bool" where
  "is_digit c \<longleftrightarrow> c \<in> set ''0123456789''"

definition digit_val :: "char \<Rightarrow> nat" where
  "digit_val c = of_char c - 48"

definition py_int :: "string \<Rightarrow> nat" where
  "py_int ds = foldl (\<lambda>a c. 10 * a + digit_val c) 0 ds"

text \<open>
  The three groups of one timestamp match: minutes, seconds and the optional fraction.
  \<^verbatim>\<open>ts_pattern = \[(\d{1,2}):(\d{2})(?:\.(\d{1,3}))?\]\<close>. Each digit group is followed
  by a character that is not a digit, so a group matches exactly when the whole run of
  digits at that place has an admissible length; backtracking to a shorter group can
  never succeed.
\<close>

type_synonym ts_groups = "string \<times> string \<times> string option"

definition match_char :: "char \<Rightarrow> string \<Rightarrow> string option" where
  "match_char c s = (case s of [] \<Rightarrow> None | x # r \<Rightarrow> if x = c then Some r else None)"

definition match_digits :: "nat \<Rightarrow> nat \<Rightarrow> string \<Rightarrow> (string \<times> string) option" where
  "match_digits lo hi s =
     (let g = takeWhile is_digit s in
      if lo \<le> length g \<and> length g \<le> hi then Some (g, dropWhile is_digit s) else None)"

definition match_ts :: "string \<Rightarrow> (ts_groups \<times> string) option" where
  "match_ts s = do {
     r0 \<leftarrow> match_char CHR ''['' s;
     (g1, r1) \<leftarrow> match_digits 1 2 r0;
     r2 \<leftarrow> match_char CHR '':'' r1;
     (g2, r3) \<leftarrow> match_digits 2 2 r2;
     (case match_char CHR '']'' r3 of
        Some r \<Rightarrow> Some ((g1, g2, None), r)
      | None \<Rightarrow> do {
          r4 \<leftarrow> match_char CHR ''.'' r3;
          (g3, r5) \<leftarrow> match_digits 1 3 r4;
          r6 \<leftarrow> match_char CHR '']'' r5;
          Some ((g1, g2, Some g3), r6)
        })
   }"

text \<open>The text of a timestamp with given groups, and the groups the pattern can
  produce.\<close>

definition show_ts :: "ts_groups \<Rightarrow> string" where
  "show_ts g = (case g of (g1, g2, g3) \<Rightarrow>
     ''['' @ g1 @ '':'' @ g2 @ (case g3 of None \<Rightarrow> [] | Some f \<Rightarrow> ''.'' @ f) @ '']'')"

definition wf_ts :: "ts_groups \<Rightarrow> bool" where
  "wf_ts g \<longleftrightarrow> (case g of (g1, g2, g3) \<Rightarrow>
     list_all is_digit g1 \<and> 1 \<le> length g1 \<and> length g1 \<le> 2
     \<and> list_all is_digit g2 \<and> length g2 = 2
     \<and> (case g3 of None \<Rightarrow> True
         | Some f \<Rightarrow> list_all is_digit f \<and> 1 \<le> length f \<and> length f \<le> 3))"

text \<open>A match consumes the text it matched; the scanning loops below terminate for
  that reason.\<close>

lemma match_char_Some: "match_char c s = Some r \<longleftrightarrow> s = c # r"
  by (auto simp: match_char_def split: list.splits)

lemma match_digits_Some:
  "match_digits lo hi s = Some (g, r) \<Longrightarrow>
     s = g @ r \<and> list_all is_digit g \<and> lo \<le> length g \<and> length g \<le> hi"
  by (auto simp: match_digits_def Let_def list_all_iff split: if_splits dest: set_takeWhileD)

lemma match_ts_sound:
  assumes "match_ts s = Some (g, r)"
  shows "s = show_ts g @ r \<and> wf_ts g"
proof -
  obtain g1 g2 g3 where g: "g = (g1, g2, g3)" by (cases g)
  from assms obtain r0 r1 r2 r3 where
      a: "match_char CHR ''['' s = Some r0"
      and b: "match_digits 1 2 r0 = Some (g1, r1)"
      and c: "match_char CHR '':'' r1 = Some r2"
      and d: "match_digits 2 2 r2 = Some (g2, r3)"
      and e: "(case match_char CHR '']'' r3 of
          Some r' \<Rightarrow> Some ((g1, g2, None), r')
        | None \<Rightarrow> do {
            r4 \<leftarrow> match_char CHR ''.'' r3;
            (g3', r5) \<leftarrow> match_digits 1 3 r4;
            r6 \<leftarrow> match_char CHR '']'' r5;
            Some ((g1, g2, Some g3'), r6)
          }) = Some ((g1, g2, g3), r)"
    unfolding match_ts_def g
    by (auto simp: bind_eq_Some_conv split: prod.splits option.splits)
  from a have s: "s = CHR ''['' # r0" by (simp add: match_char_Some)
  note B = match_digits_Some [OF b]
  from c have r1: "r1 = CHR '':'' # r2" by (simp add: match_char_Some)
  note D = match_digits_Some [OF d]
  show ?thesis
  proof (cases "match_char CHR '']'' r3")
    case (Some r')
    with e have "g3 = None" "r' = r" by simp_all
    with Some have "r3 = CHR '']'' # r" by (simp add: match_char_Some)
    with s B r1 D \<open>g3 = None\<close> show ?thesis
      by (simp add: g show_ts_def wf_ts_def)
  next
    case None
    with e obtain r4 f r5 where
        f1: "match_char CHR ''.'' r3 = Some r4"
        and f2: "match_digits 1 3 r4 = Some (f, r5)"
        and f3: "match_char CHR '']'' r5 = Some r"
        and f4: "g3 = Some f"
      by (auto simp: bind_eq_Some_conv split: prod.splits)
    from f1 have "r3 = CHR ''.'' # r4" by (simp add: match_char_Some)
    moreover note F = match_digits_Some [OF f2]
    moreover from f3 have "r5 = CHR '']'' # r" by (simp add: match_char_Some)
    ultimately show ?thesis using s B r1 D f4
      by (simp add: g show_ts_def wf_ts_def)
  qed
qed

lemma match_ts_shorter: "match_ts s = Some (g, r) \<Longrightarrow> length r < length s"
  by (drule match_ts_sound) (auto simp: show_ts_def split: prod.splits)

text \<open>
  \<^verbatim>\<open>line_pattern = (\[(\d{1,2}):(\d{2})(?:\.(\d{1,3}))?\])+(.+)?$\<close>, used with
  \<^verbatim>\<open>match\<close>, that is, anchored at the start of the line. The repetition is greedy and
  takes every timestamp at the start; the line holds no line feed (it is a piece of
  \<^verbatim>\<open>split("\n")\<close>), so \<^verbatim>\<open>(.+)?$\<close> then matches whatever is left and the first
  alternative tried succeeds. \<open>line_pattern_match\<close> returns \<^verbatim>\<open>None\<close> for no match and
  otherwise group 5, itself \<^verbatim>\<open>None\<close> when nothing is left.
\<close>

function leading_tags :: "string \<Rightarrow> ts_groups list \<times> string" where
  "leading_tags [] = ([], [])"
| "leading_tags (c # cs) =
     (case match_ts (c # cs) of
        None \<Rightarrow> ([], c # cs)
      | Some (g, r) \<Rightarrow> (case leading_tags r of (gs, r') \<Rightarrow> (g # gs, r')))"
  by pat_completeness auto
termination
  by (relation "measure length") (auto dest: match_ts_shorter)

definition line_pattern_match :: "string \<Rightarrow> string option option" where
  "line_pattern_match line =
     (case leading_tags line of
        ([], rest) \<Rightarrow> None
      | (g # gs, rest) \<Rightarrow> Some (if rest = [] then None else Some rest))"

text \<open>\<^verbatim>\<open>ts_pattern.finditer(line)\<close>: the matches found scanning from left to right,
  each search resuming where the previous match ended.\<close>

function finditer :: "string \<Rightarrow> ts_groups list" where
  "finditer [] = []"
| "finditer (c # cs) =
     (case match_ts (c # cs) of
        Some (g, r) \<Rightarrow> g # finditer r
      | None \<Rightarrow> finditer cs)"
  by pat_completeness auto
termination
  by (relation "measure length") (auto dest: match_ts_shorter)

text \<open>The body of the inner loop: \<^verbatim>\<open>fraction = ts.group(3) or "0"\<close>,
  \<^verbatim>\<open>millis = int((fraction + "000")[:3])\<close>.\<close>

definition total_seconds :: "ts_groups \<Rightarrow> real" where
  "total_seconds ts = (case ts of (g1, g2, g3) \<Rightarrow>
     let minutes = py_int g1;
         seconds = py_int g2;
         fraction = (case g3 of None \<Rightarrow> ''0'' | Some f \<Rightarrow> if f = [] then ''0'' else f);
         millis = py_int (take 3 (fraction @ ''000''))
     in real (minutes * 60) + real seconds + real millis / 1000.0)"

text \<open>The number of milliseconds that the fraction digits \<open>f\<close> denote when read as
  the decimal fraction \<open>0.f\<close>.\<close>

definition fraction_millis :: "string option \<Rightarrow> nat" where
  "fraction_millis g3 = (case g3 of None \<Rightarrow> 0 | Some f \<Rightarrow> py_int f * 10 ^ (3 - length f))"

text \<open>The body of the outer loop, for one piece \<^verbatim>\<open>raw_line\<close>: the pairs appended
  to \<^verbatim>\<open>cues\<close>.\<close>

definition line_cues :: "string \<Rightarrow> (real \<times> string) list" where
  "line_cues raw_line =
     (let line = strip raw_line in
      if line = [] then []
      else case line_pattern_match line of
          None \<Rightarrow> []
        | Some g5 \<Rightarrow>
            let lyric_text = strip (case g5 of None \<Rightarrow> [] | Some r \<Rightarrow> r) in
            if lyric_text = [] then []
            else map (\<lambda>ts. (total_seconds ts, lyric_text)) (finditer line))"

text \<open>\<^verbatim>\<open>str.split("\n")\<close>\<close>

fun split_nl :: "string \<Rightarrow> string list" where
  "split_nl [] = [[]]"
| "split_nl (c # cs) =
     (if c = CHR 0x0A then [] # split_nl cs
      else (case split_nl cs of l # ls \<Rightarrow> (c # l) # ls | [] \<Rightarrow> [[c]]))"

text \<open>The deduplication loop; \<^verbatim>\<open>last\<close> starts as \<^verbatim>\<open>None\<close>.\<close>

fun dedup_loop :: "(real \<times> string) option \<Rightarrow> (real \<times> string) list \<Rightarrow> (real \<times> string) list" where
  "dedup_loop last_cue [] = []"
| "dedup_loop last_cue (cue # cues) =
     (if Some cue \<noteq> last_cue then cue # dedup_loop (Some cue) cues
      else dedup_loop (Some cue) cues)"

text \<open>\<^verbatim>\<open>cues.sort(key=lambda x: x[0])\<close> is a stable sort on the time, as
  \<open>sort_key fst\<close> is.\<close>

definition parse_lrc_synced_lines :: "string \<Rightarrow> (real \<times> string) list" where
  "parse_lrc_synced_lines lrc_text =
     (if lrc_text = [] then []
      else let cues = concat (map line_cues (split_nl (filter (\<lambda>c. c \<noteq> CHR 0x0D) lrc_text)))
           in dedup_loop None (sort_key fst cues))"

subsection \<open>Fetching with retries\<close>

text \<open>The module constants.\<close>

definition LYRICS_TIMEOUT_SECONDS :: nat where "LYRICS_TIMEOUT_SECONDS = 12"
definition LYRICS_MAX_RETRIES :: nat where "LYRICS_MAX_RETRIES = 3"
definition LYRICS_BACKOFF_SECONDS :: real where "LYRICS_BACKOFF_SECONDS = 1.2"

text \<open>
  The exceptions of the lookup, as far as the code tells them apart: the classes of
  \<^verbatim>\<open>requests.exceptions\<close> (an \<^verbatim>\<open>HTTPError\<close> with the status of its response, if it has
  one; \<^verbatim>\<open>ConnectTimeout\<close> is both a \<^verbatim>\<open>Timeout\<close> and a \<^verbatim>\<open>ConnectionError\<close>;
  \<^verbatim>\<open>JSONDecodeError\<close> is also a \<^verbatim>\<open>ValueError\<close>; \<^verbatim>\<open>RequestException\<close> and \<^verbatim>\<open>Timeout\<close>
  with a message stand for instances of these classes themselves) and Python's
  \<^verbatim>\<open>ValueError\<close>. The predicates are the \<^verbatim>\<open>isinstance\<close> tests.
\<close>

datatype exn =
    HTTPError "nat option"
  | ReadTimeout
  | ConnectTimeout
  | ConnectionError
  | JSONDecodeError
  | RequestException string
  | Timeout string
  | ValueError string

fun is_HTTPError :: "exn \<Rightarrow> bool" where
  "is_HTTPError (HTTPError _) = True"
| "is_HTTPError _ = False"

fun is_Timeout :: "exn \<Rightarrow> bool" where
  "is_Timeout ReadTimeout = True"
| "is_Timeout ConnectTimeout = True"
| "is_Timeout (Timeout _) = True"
| "is_Timeout _ = False"

fun is_ConnectionError :: "exn \<Rightarrow> bool" where
  "is_ConnectionError ConnectionError = True"
| "is_ConnectionError ConnectTimeout = True"
| "is_ConnectionError _ = False"

fun is_ValueError :: "exn \<Rightarrow> bool" where
  "is_ValueError (ValueError _) = True"
| "is_ValueError JSONDecodeError = True"
| "is_ValueError _ = False"

fun is_RequestException :: "exn \<Rightarrow> bool" where
  "is_RequestException (ValueError _) = False"
| "is_RequestException _ = True"

fun status_code :: "exn \<Rightarrow> nat option" where
  "status_code (HTTPError st) = st"
| "status_code _ = None"

text \<open>
  \<^verbatim>\<open>_get_json_with_retries(url, timeout_seconds)\<close>. The network is a function from the
  number of the attempt to what the body of the \<^verbatim>\<open>try\<close> does on that attempt: it returns
  the decoded payload or raises. The model returns the outcome of the call together with
  the requests sent and the sleeps, in order. The loop runs over
  \<^verbatim>\<open>range(1, LYRICS_MAX_RETRIES + 1)\<close>; the statements after the loop are its empty case.
\<close>

datatype event = HttpGet string nat | Sleep real

fun retry_loop ::
  "(nat \<Rightarrow> exn + 'a) \<Rightarrow> string \<Rightarrow> nat \<Rightarrow> nat list \<Rightarrow> exn option \<Rightarrow> (exn + 'a) \<times> event list" where
  "retry_loop http url timeout_seconds [] last_error =
     (case last_error of
        Some e \<Rightarrow> (Inl e, [])
      | None \<Rightarrow>
          (Inl (RequestException ''Unknown network error while requesting lyrics API.''), []))"
| "retry_loop http url timeout_seconds (attempt # rest) last_error =
     (case http attempt of
        Inr payload \<Rightarrow> (Inr payload, [HttpGet url timeout_seconds])
      | Inl exc \<Rightarrow>
          if is_HTTPError exc then
            (let retryable = (case status_code exc of
                                None \<Rightarrow> False
                              | Some st \<Rightarrow> st \<in> {408, 429, 500, 502, 503, 504}) in
             if attempt < LYRICS_MAX_RETRIES \<and> retryable then
               (case retry_loop http url timeout_seconds rest (Some exc) of
                  (r, evs) \<Rightarrow>
                    (r, HttpGet url timeout_seconds
                        # Sleep (LYRICS_BACKOFF_SECONDS * real attempt) # evs))
             else (Inl exc, [HttpGet url timeout_seconds]))
          else if is_Timeout exc \<or> is_ConnectionError exc then
            (if attempt < LYRICS_MAX_RETRIES then
               (case retry_loop http url timeout_seconds rest (Some exc) of
                  (r, evs) \<Rightarrow>
                    (r, HttpGet url timeout_seconds
                        # Sleep (LYRICS_BACKOFF_SECONDS * real attempt) # evs))
             else (Inl exc, [HttpGet url timeout_seconds]))
          else (Inl exc, [HttpGet url timeout_seconds]))"

definition get_json_with_retries ::
  "(nat \<Rightarrow> exn + 'a) \<Rightarrow> string \<Rightarrow> nat \<Rightarrow> (exn + 'a) \<times> event list" where
  "get_json_with_retries http url timeout_seconds =
     retry_loop http url timeout_seconds [1 ..< LYRICS_MAX_RETRIES + 1] None"

text \<open>An error after which another attempt is due, if one is left: an HTTP error
  with one of the six statuses, or a timeout or connection error.\<close>

definition retry_class :: "exn \<Rightarrow> bool" where
  "retry_class e \<longleftrightarrow>
     (if is_HTTPError e
      then (\<exists>st. status_code e = Some st \<and> st \<in> {408, 429, 500, 502, 503, 504})
      else is_Timeout e \<or> is_ConnectionError e)"

text \<open>The number of requests in a trace, its sleeps, and the trace of \<open>n\<close> attempts
  with a sleep of \<open>1.2 * k\<close> seconds after attempt \<open>k\<close>.\<close>

definition attempts :: "event list \<Rightarrow> nat" where
  "attempts evs = length (filter (\<lambda>ev. case ev of HttpGet _ _ \<Rightarrow> True | Sleep _ \<Rightarrow> False) evs)"

definition sleeps :: "event list \<Rightarrow> real list" where
  "sleeps evs = concat (map (\<lambda>ev. case ev of HttpGet _ _ \<Rightarrow> [] | Sleep d \<Rightarrow> [d]) evs)"

definition schedule :: "string \<Rightarrow> nat \<Rightarrow> nat \<Rightarrow> event list" where
  "schedule url timeout_seconds n =
     concat (map (\<lambda>k. [HttpGet url timeout_seconds, Sleep (1.2 * real k)]) [1 ..< n])
     @ [HttpGet url timeout_seconds]"

subsection \<open>The two providers and the resolver\<close>

text \<open>
  The payloads are modelled at the shape the two services document: an object with an
  optional \<^verbatim>\<open>data\<close> list of candidates and an optional \<^verbatim>\<open>lyrics\<close> field, an array of
  track objects, or some other JSON value. A field is a string, \<^verbatim>\<open>null\<close> or absent;
  \<open>py_str_field\<close> is \<^verbatim>\<open>str(obj.get(key, ""))\<close>. The \<^verbatim>\<open>artist\<close> of a candidate is
  \<^verbatim>\<open>None\<close> when it is not an object, else its \<^verbatim>\<open>name\<close> field.
\<close>

datatype json_field = Absent | JNull | JString string

definition py_str_field :: "json_field \<Rightarrow> string" where
  "py_str_field f = (case f of Absent \<Rightarrow> [] | JNull \<Rightarrow> ''None'' | JString s \<Rightarrow> s)"

record candidate =
  cand_title :: json_field
  cand_artist :: "json_field option"

record track =
  trackName :: json_field
  artistName :: json_field
  plainLyrics :: json_field
  syncedLyrics :: json_field

datatype payload =
    JsonObject "candidate list option" json_field
  | JsonArray "track list"
  | JsonOther

text \<open>\<^verbatim>\<open>str.lower()\<close> on code points below 256.\<close>

definition py_lower_char :: "char \<Rightarrow> char" where
  "py_lower_char c =
     (let n = (of_char c :: nat) in
      if (65 \<le> n \<and> n \<le> 90) \<or> (192 \<le> n \<and> n \<le> 222 \<and> n \<noteq> 215)
      then char_of (n + 32) else c)"

definition lower :: "string \<Rightarrow> string" where
  "lower s = map py_lower_char s"

text \<open>
  The network answers each URL, attempt by attempt. \<^verbatim>\<open>requests.utils.quote\<close> is a
  library function; it is a parameter \<open>quote\<close> of the model.
\<close>

type_synonym network = "string \<Rightarrow> nat \<Rightarrow> exn + payload"

definition fetch :: "network \<Rightarrow> string \<Rightarrow> exn + payload" where
  "fetch net url = fst (get_json_with_retries (net url) url LYRICS_TIMEOUT_SECONDS)"

text \<open>\<^verbatim>\<open>_search_song_candidates\<close> and \<^verbatim>\<open>_fetch_lyrics\<close>.\<close>

definition search_song_candidates ::
  "network \<Rightarrow> (string \<Rightarrow> string) \<Rightarrow> string \<Rightarrow> exn + candidate list" where
  "search_song_candidates net quote song_name =
     (case fetch net (''https://api.lyrics.ovh/suggest/'' @ quote song_name) of
        Inl e \<Rightarrow> Inl e
      | Inr payload \<Rightarrow>
          Inr (case payload of JsonObject (Some data) _ \<Rightarrow> data | _ \<Rightarrow> []))"

definition fetch_lyrics ::
  "network \<Rightarrow> (string \<Rightarrow> string) \<Rightarrow> string \<Rightarrow> string \<Rightarrow> exn + string" where
  "fetch_lyrics net quote artist title =
     (case fetch net (''https://api.lyrics.ovh/v1/'' @ quote artist @ ''/'' @ quote title) of
        Inl e \<Rightarrow> Inl e
      | Inr payload \<Rightarrow>
          Inr (case payload of
                 JsonObject _ (JString lyrics) \<Rightarrow> if lyrics \<noteq> [] then strip lyrics else []
               | _ \<Rightarrow> []))"

text \<open>\<^verbatim>\<open>_find_and_fetch_lyrics_lyricsovh\<close>: the \<^verbatim>\<open>for\<close> loop with \<^verbatim>\<open>break\<close> is
  \<open>find\<close>; \<^verbatim>\<open>candidates[0]\<close> is read only when the list is not empty.\<close>

definition find_and_fetch_lyrics_lyricsovh ::
  "network \<Rightarrow> (string \<Rightarrow> string) \<Rightarrow> string \<Rightarrow> exn + (string \<times> string \<times> string)" where
  "find_and_fetch_lyrics_lyricsovh net quote song_name =
     (case search_song_candidates net quote song_name of
        Inl e \<Rightarrow> Inl e
      | Inr candidates \<Rightarrow>
          (case candidates of
             [] \<Rightarrow> Inl (ValueError ''Song not found in lyrics search results.'')
           | first # _ \<Rightarrow>
               let target_lower = lower (strip song_name);
                   chosen = (case find (\<lambda>c. lower (strip (py_str_field (cand_title c)))
                                              = target_lower) candidates of
                               Some c \<Rightarrow> c
                             | None \<Rightarrow> first);
                   matched_title = strip (py_str_field (cand_title chosen));
                   matched_artist = (case cand_artist chosen of
                                       Some name \<Rightarrow> strip (py_str_field name)
                                     | None \<Rightarrow> strip [])
               in if matched_title = [] \<or> matched_artist = []
                  then Inl (ValueError ''Unable to resolve artist/title for the requested song.'')
                  else (case fetch_lyrics net quote matched_artist matched_title of
                          Inl e \<Rightarrow> Inl e
                        | Inr lyrics \<Rightarrow>
                            if lyrics = []
                            then Inl (ValueError ''Lyrics were not available for the matched song.'')
                            else Inr (lyrics, matched_title, matched_artist))))"

text \<open>\<^verbatim>\<open>_find_and_fetch_lyrics_lrclib\<close>\<close>

definition find_and_fetch_lyrics_lrclib ::
  "network \<Rightarrow> (string \<Rightarrow> string) \<Rightarrow> string \<Rightarrow> exn + (string \<times> string \<times> string)" where
  "find_and_fetch_lyrics_lrclib net quote song_name =
     (case fetch net (''https://lrclib.net/api/search?q='' @ quote song_name) of
        Inl e \<Rightarrow> Inl e
      | Inr payload \<Rightarrow>
          (case payload of
             JsonArray (first # rest) \<Rightarrow>
               let target_lower = lower (strip song_name);
                   chosen = (case find (\<lambda>item. lower (strip (py_str_field (trackName item)))
                                                 = target_lower) (first # rest) of
                               Some item \<Rightarrow> item
                             | None \<Rightarrow> first);
                   matched_title = strip (py_str_field (trackName chosen));
                   matched_artist = strip (py_str_field (artistName chosen))
               in if matched_title = [] \<or> matched_artist = []
                  then Inl (ValueError
                         ''Unable to resolve fallback artist/title for the requested song.'')
                  else
                    let lyrics = strip (py_str_field (plainLyrics chosen));
                        lyrics = (if lyrics = [] then strip (py_str_field (syncedLyrics chosen))
                                  else lyrics)
                    in if lyrics = []
                       then Inl (ValueError
                              ''Lyrics were not available from the fallback provider.'')
                       else Inr (lyrics, matched_title, matched_artist)
           | _ \<Rightarrow> Inl (ValueError ''Song not found in fallback lyrics search results.'')))"

text \<open>
  \<^verbatim>\<open>find_and_fetch_lyrics\<close>. Both handlers are
  \<^verbatim>\<open>except (requests.exceptions.RequestException, ValueError)\<close>; an exception of
  neither class would pass through unchanged.
\<close>

definition caught :: "exn \<Rightarrow> bool" where
  "caught e \<longleftrightarrow> is_RequestException e \<or> is_ValueError e"

definition find_and_fetch_lyrics ::
  "network \<Rightarrow> (string \<Rightarrow> string) \<Rightarrow> string \<Rightarrow> exn + (string \<times> string \<times> string)" where
  "find_and_fetch_lyrics net quote song_name =
     (case find_and_fetch_lyrics_lyricsovh net quote song_name of
        Inr result \<Rightarrow> Inr result
      | Inl primary_error \<Rightarrow>
          if \<not> caught primary_error then Inl primary_error
          else (case find_and_fetch_lyrics_lrclib net quote song_name of
              Inr result \<Rightarrow> Inr result
            | Inl fallback_exc \<Rightarrow>
                if \<not> caught fallback_exc then Inl fallback_exc
                else if is_Timeout primary_error \<and> is_Timeout fallback_exc
                  then Inl (Timeout ''Both lyrics providers timed out.'')
                else if is_ValueError primary_error \<and> is_ValueError fallback_exc
                  then Inl (ValueError
                         ''Song not found or lyrics unavailable across both providers.'')
                else Inl (RequestException ''Lyrics lookup failed across both providers.'')))"

section \<open>Properties\<close>

subsection \<open>Active cue lookup\<close>

lemma find_from_Some:
  "find_from cs t k = Some i \<Longrightarrow>
     k \<le> i \<and> i - k < length cs \<and> in_window (cs ! (i - k)) t \<and>
     (\<forall>j < i - k. \<not> in_window (cs ! j) t)"
proof (induction cs arbitrary: k)
  case Nil
  then show ?case by simp
next
  case (Cons c cs)
  show ?case
  proof (cases "in_window c t")
    case True
    with Cons.prems show ?thesis by simp
  next
    case False
    with Cons.prems have rec: "find_from cs t (k + 1) = Some i" by simp
    from Cons.IH [OF rec]
    have a: "k + 1 \<le> i" and b: "i - (k + 1) < length cs"
      and c: "in_window (cs ! (i - (k + 1))) t"
      and d: "\<forall>j < i - (k + 1). \<not> in_window (cs ! j) t"
      by simp_all
    from a have e: "i - k = Suc (i - (k + 1))" by simp
    have "\<forall>j < i - k. \<not> in_window ((c # cs) ! j) t"
    proof (intro allI impI)
      fix j assume "j < i - k"
      then show "\<not> in_window ((c # cs) ! j) t"
        using False d e by (cases j) simp_all
    qed
    with a b c e show ?thesis by simp
  qed
qed

lemma find_from_None:
  "find_from cs t k = None \<longleftrightarrow> (\<forall>c \<in> set cs. \<not> in_window c t)"
  by (induction cs arbitrary: k) simp_all

text \<open>
  C3. For every cue list and time, \<open>findCueIndex\<close> returns the index of the first
  cue in list order whose window has \<open>start \<le> t < end\<close>; when no window contains
  \<open>t\<close> and the list is not empty it returns the index of the last cue, which covers
  a \<open>t\<close> at or past every window's end (so past the final window's end when no
  window ends later than the final one) and a \<open>t\<close> before every cue's start (so before
  the first cue's start when the cues are in start order); on the empty list it
  returns \<open>-1\<close>.
\<close>

theorem findCueIndex_first_or_last:
  "(\<forall>i. i < length cues \<and> in_window (cues ! i) t \<and> (\<forall>j < i. \<not> in_window (cues ! j) t)
        \<longrightarrow> findCueIndex cues t = int i)
   \<and> ((\<exists>c \<in> set cues. in_window c t) \<longrightarrow>
        (\<exists>i < length cues. findCueIndex cues t = int i \<and> in_window (cues ! i) t
            \<and> (\<forall>j < i. \<not> in_window (cues ! j) t)))
   \<and> (cues \<noteq> [] \<and> (\<forall>c \<in> set cues. \<not> in_window c t)
        \<longrightarrow> findCueIndex cues t = int (length cues) - 1)
   \<and> (cues \<noteq> [] \<and> (\<forall>c \<in> set cues. end_sec c \<le> t)
        \<longrightarrow> findCueIndex cues t = int (length cues) - 1)
   \<and> (cues \<noteq> [] \<and> (\<forall>c \<in> set cues. t < start c)
        \<longrightarrow> findCueIndex cues t = int (length cues) - 1)
   \<and> (cues \<noteq> [] \<and> (\<forall>c \<in> set cues. end_sec c \<le> end_sec (last cues))
          \<and> end_sec (last cues) \<le> t
        \<longrightarrow> findCueIndex cues t = int (length cues) - 1)
   \<and> (cues \<noteq> [] \<and> sorted (map start cues) \<and> t < start (hd cues)
        \<longrightarrow> findCueIndex cues t = int (length cues) - 1)
   \<and> findCueIndex [] t = - 1"
proof -
  have some: "\<exists>i < length cues. findCueIndex cues t = int i \<and> in_window (cues ! i) t
                \<and> (\<forall>j < i. \<not> in_window (cues ! j) t)"
    if ex: "\<exists>c \<in> set cues. in_window c t"
  proof -
    from ex have "find_from cues t 0 \<noteq> None" by (simp add: find_from_None)
    then obtain i where i: "find_from cues t 0 = Some i" by auto
    from find_from_Some [OF i] have "i < length cues" "in_window (cues ! i) t"
      "\<forall>j < i. \<not> in_window (cues ! j) t" by simp_all
    moreover from i have "findCueIndex cues t = int i" by (simp add: findCueIndex_def)
    ultimately show ?thesis by blast
  qed
  have first: "findCueIndex cues t = int i"
    if h: "i < length cues \<and> in_window (cues ! i) t \<and> (\<forall>j < i. \<not> in_window (cues ! j) t)" for i
  proof -
    from h have "\<exists>c \<in> set cues. in_window c t" by (metis nth_mem)
    from some [OF this] obtain k where k: "k < length cues" "findCueIndex cues t = int k"
      "in_window (cues ! k) t" "\<forall>j < k. \<not> in_window (cues ! j) t" by blast
    from h k have "\<not> i < k" "\<not> k < i" by blast+
    then have "k = i" by simp
    with k show ?thesis by simp
  qed
  have none: "findCueIndex cues t = int (length cues) - 1"
    if h: "cues \<noteq> [] \<and> (\<forall>c \<in> set cues. \<not> in_window c t)"
  proof -
    from h have "find_from cues t 0 = None" by (simp add: find_from_None)
    with h show ?thesis by (simp add: findCueIndex_def)
  qed
  have past: "findCueIndex cues t = int (length cues) - 1"
    if h: "cues \<noteq> [] \<and> (\<forall>c \<in> set cues. end_sec c \<le> t)"
  proof -
    from h have "\<forall>c \<in> set cues. \<not> in_window c t" by (auto simp: in_window_def)
    with h none show ?thesis by blast
  qed
  have before: "findCueIndex cues t = int (length cues) - 1"
    if h: "cues \<noteq> [] \<and> (\<forall>c \<in> set cues. t < start c)"
  proof -
    from h have "\<forall>c \<in> set cues. \<not> in_window c t" by (auto simp: in_window_def)
    with h none show ?thesis by blast
  qed
  have past_final: "findCueIndex cues t = int (length cues) - 1"
    if h: "cues \<noteq> [] \<and> (\<forall>c \<in> set cues. end_sec c \<le> end_sec (last cues))
          \<and> end_sec (last cues) \<le> t"
  proof -
    from h have "cues \<noteq> [] \<and> (\<forall>c \<in> set cues. end_sec c \<le> t)" by fastforce
    then show ?thesis by (rule past)
  qed
  have before_first: "findCueIndex cues t = int (length cues) - 1"
    if h: "cues \<noteq> [] \<and> sorted (map start cues) \<and> t < start (hd cues)"
  proof -
    from h obtain c cs where c: "cues = c # cs" by (cases cues) auto
    with h have "\<forall>x \<in> set cues. start c \<le> start x" by auto
    with h c have "cues \<noteq> [] \<and> (\<forall>x \<in> set cues. t < start x)" by fastforce
    then show ?thesis by (rule before)
  qed
  have empty: "findCueIndex [] t = - 1" by (simp add: findCueIndex_def)
  from first some none past before past_final before_first empty show ?thesis by blast
qed

theorem findCueIndex_first_or_last_witness:
  "(1::nat) < length [\<lparr>start = 0, end_sec = 2, text_of = ''one''\<rparr>,
                       \<lparr>start = 2, end_sec = 4, text_of = ''two''\<rparr>]
   \<and> in_window ([\<lparr>start = 0, end_sec = 2, text_of = ''one''\<rparr>,
                  \<lparr>start = 2, end_sec = 4, text_of = ''two''\<rparr>] ! 1) 3
   \<and> findCueIndex [\<lparr>start = 0, end_sec = 2, text_of = ''one''\<rparr>,
                    \<lparr>start = 2, end_sec = 4, text_of = ''two''\<rparr>] 3 = 1
   \<and> findCueIndex [\<lparr>start = 1, end_sec = 2, text_of = ''one''\<rparr>,
                    \<lparr>start = 2, end_sec = 4, text_of = ''two''\<rparr>] 9 = 1
   \<and> findCueIndex [\<lparr>start = 1, end_sec = 2, text_of = ''one''\<rparr>,
                    \<lparr>start = 2, end_sec = 4, text_of = ''two''\<rparr>] (1 / 2) = 1"
proof -
  let ?a = "[\<lparr>start = 0, end_sec = 2, text_of = ''one''\<rparr>,
             \<lparr>start = 2, end_sec = 4, text_of = ''two''\<rparr>]"
  let ?b = "[\<lparr>start = 1, end_sec = 2, text_of = ''one''\<rparr>,
             \<lparr>start = 2, end_sec = 4, text_of = ''two''\<rparr>]"
  have h1: "(1::nat) < length ?a" by simp
  have h2: "in_window (?a ! 1) 3" by (simp add: in_window_def)
  have h3: "\<forall>j < (1::nat). \<not> in_window (?a ! j) 3" by (simp add: in_window_def)
  from findCueIndex_first_or_last [of ?a 3] h1 h2 h3
  have r1: "findCueIndex ?a 3 = int 1" by blast
  have h4: "?b \<noteq> [] \<and> (\<forall>c \<in> set ?b. end_sec c \<le> end_sec (last ?b))
      \<and> end_sec (last ?b) \<le> 9" by simp
  from findCueIndex_first_or_last [of ?b 9] h4
  have r2: "findCueIndex ?b 9 = int (length ?b) - 1" by blast
  have h5: "?b \<noteq> [] \<and> sorted (map start ?b) \<and> 1 / 2 < start (hd ?b)" by simp
  from findCueIndex_first_or_last [of ?b "1 / 2"] h5
  have r3: "findCueIndex ?b (1 / 2) = int (length ?b) - 1" by blast
  from h1 h2 r1 r2 r3 show ?thesis by simp
qed

subsection \<open>Millisecond rounding\<close>

lemma round_half_even_of_int: "round_half_even (of_int k) = k"
  by (simp add: round_half_even_def)

lemma round_half_even_shift:
  "even k \<Longrightarrow> round_half_even (y + of_int k) = round_half_even y + k"
  by (simp add: round_half_even_def Let_def)

lemma round_half_even_bounds:
  "\<lfloor>y\<rfloor> \<le> round_half_even y \<and> round_half_even y \<le> \<lfloor>y\<rfloor> + 1"
  by (simp add: round_half_even_def Let_def)

lemma round_half_even_mono:
  assumes "y \<le> z" shows "round_half_even y \<le> round_half_even z"
proof (cases "\<lfloor>y\<rfloor> = \<lfloor>z\<rfloor>")
  case True
  with assms show ?thesis by (auto simp: round_half_even_def Let_def)
next
  case False
  from assms have "\<lfloor>y\<rfloor> \<le> \<lfloor>z\<rfloor>" by (rule floor_mono)
  with False have "\<lfloor>y\<rfloor> + 1 \<le> \<lfloor>z\<rfloor>" by simp
  with round_half_even_bounds [of y] round_half_even_bounds [of z] show ?thesis by linarith
qed

lemma py_round3_mono: "x \<le> y \<Longrightarrow> py_round3 x \<le> py_round3 y"
  by (simp add: py_round3_def round_half_even_mono divide_right_mono)

lemma py_round3_millis: "py_round3 (of_int k / 1000) = of_int k / 1000"
  by (simp add: py_round3_def round_half_even_of_int)

lemma py_round3_zero: "py_round3 0 = 0"
  using py_round3_millis [of 0] by simp

lemma py_round3_shift:
  "even k \<Longrightarrow> py_round3 (x + of_int k / 1000) = py_round3 x + of_int k / 1000"
  by (simp add: py_round3_def distrib_right round_half_even_shift add_divide_distrib)

lemma py_round3_plus_015: "py_round3 (x + 0.15) = py_round3 x + 0.15"
  using py_round3_shift [of 150 x] by simp

lemma py_round3_minus_005: "py_round3 (x - 0.05) = py_round3 x - 0.05"
  using py_round3_shift [of "-50" x] by simp

lemma py_round3_plus_2: "py_round3 (x + 2) = py_round3 x + 2"
  using py_round3_shift [of 2000 x] by simp

lemma py_round3_max: "py_round3 (max a b) = max (py_round3 a) (py_round3 b)"
  by (simp add: max_def py_round3_mono) (metis py_round3_mono linear antisym)

subsection \<open>The cue builder\<close>

lemma length_synced_loop: "length (synced_loop s xs) = length xs"
  by (induction s xs rule: synced_loop.induct) simp_all

lemma synced_loop_nth_inner:
  "Suc i < length xs \<Longrightarrow>
     synced_loop s xs ! i =
       \<lparr>start = py_round3 (fst (xs ! i)),
        end_sec = py_round3 (max (fst (xs ! i) + 0.15) (fst (xs ! Suc i) - 0.05)),
        text_of = snd (xs ! i)\<rparr>"
proof (induction s xs arbitrary: i rule: synced_loop.induct)
  case (3 s a x b y rest)
  then show ?case by (cases i) simp_all
qed simp_all

lemma synced_loop_nth_last:
  "xs \<noteq> [] \<Longrightarrow>
     synced_loop s xs ! (length xs - 1) =
       \<lparr>start = py_round3 (fst (last xs)),
        end_sec = py_round3 (fst (last xs) + max 2.0 s),
        text_of = snd (last xs)\<rparr>"
  by (induction s xs rule: synced_loop.induct) simp_all

lemma length_fixed_loop: "length (fixed_loop s i ls) = length ls"
  by (induction ls arbitrary: i) simp_all

lemma fixed_loop_nth:
  "k < length ls \<Longrightarrow>
     fixed_loop s i ls ! k =
       \<lparr>start = py_round3 (real (i + k) * s),
        end_sec = py_round3 (real (i + k + 1) * s),
        text_of = ls ! k\<rparr>"
proof (induction ls arbitrary: i k)
  case Nil
  then show ?case by simp
next
  case (Cons l ls)
  show ?case
  proof (cases k)
    case 0
    then show ?thesis by simp
  next
    case (Suc k')
    with Cons.prems have "k' < length ls" by simp
    from Cons.IH [OF this, of "i + 1"] Suc show ?thesis by simp
  qed
qed

lemma map_text_fixed_loop: "map text_of (fixed_loop s i ls) = ls"
  by (induction ls arbitrary: i) simp_all

lemma build_fixed:
  "synced = None \<or> synced = Some [] \<Longrightarrow>
     build_overlay_cues lines s synced = fixed_loop s 0 lines"
  by (auto simp: build_overlay_cues_def)

lemma build_synced:
  "xs \<noteq> [] \<Longrightarrow> build_overlay_cues lines s (Some xs) = synced_loop s xs"
  by (cases xs) (simp_all add: build_overlay_cues_def)

lemma grid_mono: "0 \<le> s \<Longrightarrow> i \<le> j \<Longrightarrow> py_round3 (real i * s) \<le> py_round3 (real j * s)"
  by (intro py_round3_mono mult_right_mono) simp_all

lemma grid_cover:
  "0 \<le> t \<Longrightarrow> t < py_round3 (real n * s) \<Longrightarrow>
     \<exists>i < n. py_round3 (real i * s) \<le> t \<and> t < py_round3 (real (i + 1) * s)"
proof (induction n)
  case 0
  then show ?case by (simp add: py_round3_zero)
next
  case (Suc n)
  show ?case
  proof (cases "t < py_round3 (real n * s)")
    case True
    from Suc.IH [OF Suc.prems(1) True] show ?thesis by (meson less_Suc_eq)
  next
    case False
    with Suc.prems(2) have "py_round3 (real n * s) \<le> t \<and> t < py_round3 (real (n + 1) * s)"
      by simp
    then show ?thesis by blast
  qed
qed

text \<open>
  C7. In fixed-interval mode (no synced cues) the builder returns one cue per line, in
  the order of the lines: cue \<open>i\<close> starts at \<open>i * s\<close> and ends at \<open>(i + 1) * s\<close>, both
  rounded to three decimals (and exactly those values when \<open>s\<close> is a whole number of
  milliseconds); each window ends where the next one starts, the first starts at 0 and
  the last ends at \<open>n * s\<close> rounded, so that for \<open>s \<ge> 0\<close> every time in between lies in
  exactly one window; no lines give no cues.
\<close>

theorem fixed_interval_cues:
  fixes lines :: "string list" and s :: real and synced :: "(real \<times> string) list option"
  assumes mode: "synced = None \<or> synced = Some []"
  defines "cs \<equiv> build_overlay_cues lines s synced"
  shows "length cs = length lines
    \<and> (\<forall>i < length lines.
          start (cs ! i) = py_round3 (real i * s)
        \<and> end_sec (cs ! i) = py_round3 (real (i + 1) * s)
        \<and> text_of (cs ! i) = lines ! i)
    \<and> (\<forall>k. s = of_int k / 1000 \<longrightarrow>
          (\<forall>i < length lines. start (cs ! i) = real i * s \<and> end_sec (cs ! i) = real (i + 1) * s))
    \<and> (\<forall>i. i + 1 < length lines \<longrightarrow> end_sec (cs ! i) = start (cs ! (i + 1)))
    \<and> (lines \<noteq> [] \<longrightarrow> start (cs ! 0) = 0
          \<and> end_sec (cs ! (length lines - 1)) = py_round3 (real (length lines) * s))
    \<and> (0 \<le> s \<longrightarrow> (\<forall>t. 0 \<le> t \<and> t < py_round3 (real (length lines) * s) \<longrightarrow>
          (\<exists>!i. i < length lines \<and> in_window (cs ! i) t)))
    \<and> (\<forall>k. 0 \<le> s \<and> s = of_int k / 1000 \<longrightarrow>
          (\<forall>t. 0 \<le> t \<and> t < real (length lines) * s \<longrightarrow>
             (\<exists>!i. i < length lines \<and> in_window (cs ! i) t)))
    \<and> map text_of cs = lines
    \<and> build_overlay_cues [] s synced = []"
proof -
  have cs: "cs = fixed_loop s 0 lines"
    unfolding cs_def using mode by (rule build_fixed)
  have len: "length cs = length lines" by (simp add: cs length_fixed_loop)
  have nth: "start (cs ! i) = py_round3 (real i * s)
        \<and> end_sec (cs ! i) = py_round3 (real (i + 1) * s)
        \<and> text_of (cs ! i) = lines ! i" if "i < length lines" for i
    using fixed_loop_nth [OF that, of s 0] by (simp add: cs)
  have exact: "start (cs ! i) = real i * s \<and> end_sec (cs ! i) = real (i + 1) * s"
    if s: "s = of_int k / 1000" and i: "i < length lines" for k i
  proof -
    have a: "real i * s = of_int (int i * k) / 1000" by (simp add: s)
    have b: "real (i + 1) * s = of_int (int (i + 1) * k) / 1000" by (simp add: s)
    show ?thesis
      using nth [OF i] py_round3_millis [of "int i * k"] py_round3_millis [of "int (i + 1) * k"]
      unfolding a b by simp
  qed
  have adj: "end_sec (cs ! i) = start (cs ! (i + 1))" if "i + 1 < length lines" for i
    using nth [of i] nth [of "i + 1"] that by simp
  have ends: "start (cs ! 0) = 0
      \<and> end_sec (cs ! (length lines - 1)) = py_round3 (real (length lines) * s)"
    if "lines \<noteq> []"
  proof -
    from that have pos: "0 < length lines" by simp
    then have l: "length lines - 1 < length lines" by simp
    from pos have e: "real (length lines - 1 + 1) = real (length lines)" by simp
    from nth [OF pos] have a: "start (cs ! 0) = 0" by (simp add: py_round3_zero)
    from nth [OF l] have "end_sec (cs ! (length lines - 1))
        = py_round3 (real (length lines - 1 + 1) * s)" by blast
    with a show ?thesis unfolding e by blast
  qed
  have tile: "\<exists>!i. i < length lines \<and> in_window (cs ! i) t"
    if s: "0 \<le> s" and t: "0 \<le> t \<and> t < py_round3 (real (length lines) * s)" for t
  proof -
    from t grid_cover [of t "length lines" s]
    obtain i where i: "i < length lines" "py_round3 (real i * s) \<le> t"
      "t < py_round3 (real (i + 1) * s)" by blast
    have win: "in_window (cs ! i) t" using nth [OF i(1)] i by (simp add: in_window_def)
    have uniq: "j = i" if j: "j < length lines" "in_window (cs ! j) t" for j
    proof (rule ccontr)
      assume "j \<noteq> i"
      then consider "j + 1 \<le> i" | "i + 1 \<le> j" by linarith
      then show False
      proof cases
        case 1
        from grid_mono [OF s 1] have "py_round3 (real (j + 1) * s) \<le> t" using i(2) by simp
        with j nth [OF j(1)] show False by (simp add: in_window_def)
      next
        case 2
        from grid_mono [OF s 2] have "py_round3 (real (i + 1) * s) \<le> py_round3 (real j * s)" .
        with j nth [OF j(1)] i(3) show False by (simp add: in_window_def)
      qed
    qed
    from i(1) win uniq show ?thesis by blast
  qed
  have tile_exact: "\<exists>!i. i < length lines \<and> in_window (cs ! i) t"
    if s: "0 \<le> s \<and> s = of_int k / 1000" and t: "0 \<le> t \<and> t < real (length lines) * s"
    for k t
  proof -
    from s have e: "real (length lines) * s = of_int (int (length lines) * k) / 1000" by simp
    have "py_round3 (real (length lines) * s) = real (length lines) * s"
      unfolding e by (rule py_round3_millis)
    with s t tile [of t] show ?thesis by simp
  qed
  have texts: "map text_of cs = lines" by (simp add: cs map_text_fixed_loop)
  have emp: "build_overlay_cues [] s synced = []"
    using build_fixed [OF mode, of "[]" s] by simp
  from len nth exact adj ends tile tile_exact texts emp show ?thesis by blast
qed

theorem fixed_interval_cues_witness:
  "((None :: (real \<times> string) list option) = None \<or> None = Some [])
   \<and> (1::nat) < length [''one'', ''two'']
   \<and> (2.8 :: real) = of_int 2800 / 1000
   \<and> (0 :: real) \<le> 2.8
   \<and> (0 :: real) \<le> 3 \<and> 3 < py_round3 (real (length [''one'', ''two'']) * 2.8)
   \<and> start (build_overlay_cues [''one'', ''two''] 2.8 None ! 1) = real 1 * 2.8
   \<and> end_sec (build_overlay_cues [''one'', ''two''] 2.8 None ! 1) = real (1 + 1) * 2.8
   \<and> (\<exists>!i. i < length [''one'', ''two'']
          \<and> in_window (build_overlay_cues [''one'', ''two''] 2.8 None ! i) 3)
   \<and> (\<exists>!i. i < length [''one'', ''two'']
          \<and> in_window (build_overlay_cues [''one'', ''two''] 2.8 None ! i) 5)"
proof -
  let ?ls = "[''one'', ''two'']"
  have m: "(None :: (real \<times> string) list option) = None \<or> None = Some []" by simp
  have i: "(1::nat) < length ?ls" by simp
  have k: "(2.8 :: real) = of_int 2800 / 1000" by simp
  have s: "(0 :: real) \<le> 2.8" by simp
  have t: "(0 :: real) \<le> 3 \<and> 3 < py_round3 (real (length ?ls) * 2.8)"
    by (simp add: py_round3_def round_half_even_def)
  note T = fixed_interval_cues [where synced = None and lines = ?ls and s = "2.8", OF m]
  from T have "\<forall>k. (2.8 :: real) = of_int k / 1000 \<longrightarrow>
      (\<forall>i < length ?ls. start (build_overlay_cues ?ls 2.8 None ! i) = real i * 2.8
         \<and> end_sec (build_overlay_cues ?ls 2.8 None ! i) = real (i + 1) * 2.8)" by blast
  with k i have a: "start (build_overlay_cues ?ls 2.8 None ! 1) = real 1 * 2.8
         \<and> end_sec (build_overlay_cues ?ls 2.8 None ! 1) = real (1 + 1) * 2.8" by blast
  from T have "(0 :: real) \<le> 2.8 \<longrightarrow> (\<forall>t. 0 \<le> t \<and> t < py_round3 (real (length ?ls) * 2.8) \<longrightarrow>
      (\<exists>!i. i < length ?ls \<and> in_window (build_overlay_cues ?ls 2.8 None ! i) t))" by blast
  with s t have b: "\<exists>!i. i < length ?ls \<and> in_window (build_overlay_cues ?ls 2.8 None ! i) 3"
    by blast
  have t': "(0 :: real) \<le> 5 \<and> 5 < real (length ?ls) * 2.8" by simp
  from T have "\<forall>k. (0 :: real) \<le> 2.8 \<and> (2.8 :: real) = of_int k / 1000 \<longrightarrow>
      (\<forall>t. 0 \<le> t \<and> t < real (length ?ls) * 2.8 \<longrightarrow>
         (\<exists>!i. i < length ?ls \<and> in_window (build_overlay_cues ?ls 2.8 None ! i) t))" by blast
  with s k t' have b': "\<exists>!i. i < length ?ls \<and> in_window (build_overlay_cues ?ls 2.8 None ! i) 5"
    by blast
  from m i k s t a b b' show ?thesis by blast
qed

text \<open>
  C5. In synced mode a cue followed by another ends at
  \<open>max (start + 0.15) (next start - 0.05)\<close>, the last cue ends at
  \<open>start + max 2.0 seconds_per_line\<close>, both rounded to milliseconds like the start.
  After the rounding every cue lasts at least 0.15 seconds, and it ends at least 0.05
  seconds before the next start whenever the two starts are 0.20 seconds or more apart.
\<close>

theorem synced_cue_windows:
  fixes xs :: "(real \<times> string) list" and s :: real and lines :: "string list"
  assumes ne: "xs \<noteq> []"
  defines "cs \<equiv> build_overlay_cues lines s (Some xs)"
  shows "length cs = length xs
    \<and> (\<forall>i. i + 1 < length xs \<longrightarrow>
          cs ! i = \<lparr>start = py_round3 (fst (xs ! i)),
                    end_sec = py_round3 (max (fst (xs ! i) + 0.15) (fst (xs ! (i + 1)) - 0.05)),
                    text_of = snd (xs ! i)\<rparr>)
    \<and> cs ! (length xs - 1) =
          \<lparr>start = py_round3 (fst (last xs)),
           end_sec = py_round3 (fst (last xs) + max 2.0 s),
           text_of = snd (last xs)\<rparr>
    \<and> (\<forall>i < length xs. start (cs ! i) + 0.15 \<le> end_sec (cs ! i))
    \<and> (\<forall>i. i + 1 < length xs \<and> 0.20 \<le> start (cs ! (i + 1)) - start (cs ! i) \<longrightarrow>
          end_sec (cs ! i) \<le> start (cs ! (i + 1)) - 0.05)
    \<and> (\<forall>i. i + 1 < length xs \<and> 0.20 \<le> fst (xs ! (i + 1)) - fst (xs ! i) \<longrightarrow>
          end_sec (cs ! i) \<le> start (cs ! (i + 1)) - 0.05)"
proof -
  have cs: "cs = synced_loop s xs"
    unfolding cs_def using ne by (rule build_synced)
  have len: "length cs = length xs" by (simp add: cs length_synced_loop)
  have inner: "cs ! i = \<lparr>start = py_round3 (fst (xs ! i)),
                    end_sec = py_round3 (max (fst (xs ! i) + 0.15) (fst (xs ! (i + 1)) - 0.05)),
                    text_of = snd (xs ! i)\<rparr>" if "i + 1 < length xs" for i
    using synced_loop_nth_inner [of i xs s] that by (simp add: cs)
  have final: "cs ! (length xs - 1) =
          \<lparr>start = py_round3 (fst (last xs)),
           end_sec = py_round3 (fst (last xs) + max 2.0 s),
           text_of = snd (last xs)\<rparr>"
    using synced_loop_nth_last [OF ne, of s] by (simp add: cs)
  have start_nth: "start (cs ! i) = py_round3 (fst (xs ! i))" if i: "i < length xs" for i
  proof (cases "i + 1 < length xs")
    case True
    from inner [OF True] show ?thesis by simp
  next
    case False
    with i have "i = length xs - 1" by simp
    with final ne show ?thesis by (simp add: last_conv_nth)
  qed
  have end_inner: "end_sec (cs ! i) = max (start (cs ! i) + 0.15) (start (cs ! (i + 1)) - 0.05)"
    if i: "i + 1 < length xs" for i
  proof -
    from i have "start (cs ! i) = py_round3 (fst (xs ! i))"
      and "start (cs ! (i + 1)) = py_round3 (fst (xs ! (i + 1)))"
      by (simp_all add: start_nth)
    moreover from inner [OF i]
    have "end_sec (cs ! i) = py_round3 (max (fst (xs ! i) + 0.15) (fst (xs ! (i + 1)) - 0.05))"
      by simp
    ultimately show ?thesis
      by (simp only: py_round3_max py_round3_plus_015 py_round3_minus_005)
  qed
  have minimum: "start (cs ! i) + 0.15 \<le> end_sec (cs ! i)" if i: "i < length xs" for i
  proof (cases "i + 1 < length xs")
    case True
    from end_inner [OF True] show ?thesis by simp
  next
    case False
    with i have e: "i = length xs - 1" by simp
    have "py_round3 (fst (last xs)) + 2 = py_round3 (fst (last xs) + 2)"
      by (simp add: py_round3_plus_2)
    also have "\<dots> \<le> py_round3 (fst (last xs) + max 2.0 s)"
      by (rule py_round3_mono) simp
    finally show ?thesis using final e by simp
  qed
  have gap: "end_sec (cs ! i) \<le> start (cs ! (i + 1)) - 0.05"
    if h: "i + 1 < length xs \<and> 0.20 \<le> start (cs ! (i + 1)) - start (cs ! i)" for i
  proof -
    from h end_inner [of i] show ?thesis by simp
  qed
  have gap_raw: "end_sec (cs ! i) \<le> start (cs ! (i + 1)) - 0.05"
    if h: "i + 1 < length xs \<and> 0.20 \<le> fst (xs ! (i + 1)) - fst (xs ! i)" for i
  proof -
    from h have "fst (xs ! i) + 0.15 \<le> fst (xs ! (i + 1)) - 0.05" by simp
    then have "py_round3 (fst (xs ! i) + 0.15) \<le> py_round3 (fst (xs ! (i + 1)) - 0.05)"
      by (rule py_round3_mono)
    moreover from h have "start (cs ! i) = py_round3 (fst (xs ! i))"
      and "start (cs ! (i + 1)) = py_round3 (fst (xs ! (i + 1)))"
      by (simp_all add: start_nth)
    ultimately have "start (cs ! i) + 0.15 \<le> start (cs ! (i + 1)) - 0.05"
      by (simp only: py_round3_plus_015 py_round3_minus_005)
    with h end_inner [of i] show ?thesis by simp
  qed
  from len inner final minimum gap gap_raw show ?thesis by blast
qed

theorem synced_cue_windows_witness:
  "[(1.5 :: real, ''hello''), (3, ''world'')] \<noteq> []
   \<and> (0::nat) + 1 < length [(1.5 :: real, ''hello''), (3, ''world'')]
   \<and> (0.20 :: real) \<le> fst ([(1.5 :: real, ''hello''), (3, ''world'')] ! (0 + 1))
         - fst ([(1.5 :: real, ''hello''), (3, ''world'')] ! 0)
   \<and> start (build_overlay_cues [] 2.8 (Some [(1.5, ''hello''), (3, ''world'')]) ! 0) + 0.15
       \<le> end_sec (build_overlay_cues [] 2.8 (Some [(1.5, ''hello''), (3, ''world'')]) ! 0)
   \<and> end_sec (build_overlay_cues [] 2.8 (Some [(1.5, ''hello''), (3, ''world'')]) ! 0)
       \<le> start (build_overlay_cues [] 2.8 (Some [(1.5, ''hello''), (3, ''world'')]) ! (0 + 1)) - 0.05"
proof -
  let ?xs = "[(1.5 :: real, ''hello''), (3, ''world'')]"
  have ne: "?xs \<noteq> []" by simp
  have i: "(0::nat) + 1 < length ?xs" by simp
  have d: "(0.20 :: real) \<le> fst (?xs ! (0 + 1)) - fst (?xs ! 0)" by simp
  note T = synced_cue_windows [where xs = ?xs and s = "2.8" and lines = "[]", OF ne]
  from T have "\<forall>i < length ?xs.
      start (build_overlay_cues [] 2.8 (Some ?xs) ! i) + 0.15
        \<le> end_sec (build_overlay_cues [] 2.8 (Some ?xs) ! i)" by blast
  then have a: "start (build_overlay_cues [] 2.8 (Some ?xs) ! 0) + 0.15
        \<le> end_sec (build_overlay_cues [] 2.8 (Some ?xs) ! 0)" by simp
  from T have "\<forall>i. i + 1 < length ?xs \<and> 0.20 \<le> fst (?xs ! (i + 1)) - fst (?xs ! i) \<longrightarrow>
      end_sec (build_overlay_cues [] 2.8 (Some ?xs) ! i)
        \<le> start (build_overlay_cues [] 2.8 (Some ?xs) ! (i + 1)) - 0.05" by blast
  with i d have b: "end_sec (build_overlay_cues [] 2.8 (Some ?xs) ! 0)
        \<le> start (build_overlay_cues [] 2.8 (Some ?xs) ! (0 + 1)) - 0.05" by blast
  from ne i d a b show ?thesis by blast
qed

text \<open>
  C10. With a non-empty list of synced cues the result of the builder does not depend on
  the plain-text lines: two calls that differ only in the lines return the same cues.
\<close>

theorem synced_mode_ignores_lines:
  "xs \<noteq> [] \<Longrightarrow>
     build_overlay_cues lines1 s (Some xs) = build_overlay_cues lines2 s (Some xs)"
  by (simp add: build_synced)

theorem synced_mode_ignores_lines_witness:
  "[(1.5 :: real, ''hello'')] \<noteq> []
   \<and> build_overlay_cues [''la'', ''la''] 2.8 (Some [(1.5, ''hello'')])
     = build_overlay_cues [] 2.8 (Some [(1.5, ''hello'')])"
  using synced_mode_ignores_lines [of "[(1.5, ''hello'')]" "[''la'', ''la'']" "2.8" "[]"]
  by simp

subsection \<open>Active word\<close>

lemma progress_bounds:
  "0 \<le> min 0.999 (max 0 (x::real)) \<and> min 0.999 (max 0 x) < 1"
  by (simp add: min_def max_def)

lemma activeIdx_floor:
  assumes "0 < n"
  shows "activeIdx c t n =
           \<lfloor>min 0.999 (max 0 ((t - start c) / max 0.15 (end_sec c - start c))) * real n\<rfloor>
         \<and> 0 \<le> activeIdx c t n \<and> activeIdx c t n \<le> int n - 1"
proof -
  define p where "p = min 0.999 (max 0 ((t - start c) / max 0.15 (end_sec c - start c)))"
  have p: "0 \<le> p" "p < 1" unfolding p_def using progress_bounds by blast+
  from p assms have "p * real n < real n" by simp
  then have "\<lfloor>p * real n\<rfloor> < int n" by (simp add: floor_less_iff)
  then have le: "\<lfloor>p * real n\<rfloor> \<le> int n - 1" by simp
  from p have ge: "0 \<le> \<lfloor>p * real n\<rfloor>" by simp
  have "activeIdx c t n = min (int n - 1) \<lfloor>p * real n\<rfloor>"
    by (simp add: activeIdx_def p_def Let_def)
  with le ge show ?thesis unfolding p_def by simp
qed

lemma activeIdx_mono:
  assumes "t1 \<le> t2" shows "activeIdx c t1 n \<le> activeIdx c t2 n"
proof -
  define d where "d = max 0.15 (end_sec c - start c)"
  have d: "0 \<le> d" by (simp add: d_def max_def)
  from assms d have "(t1 - start c) / d \<le> (t2 - start c) / d"
    by (simp add: divide_right_mono)
  then have "min 0.999 (max 0 ((t1 - start c) / d)) \<le> min 0.999 (max 0 ((t2 - start c) / d))"
    by (intro min.mono max.mono order_refl)
  then have "min 0.999 (max 0 ((t1 - start c) / d)) * real n
      \<le> min 0.999 (max 0 ((t2 - start c) / d)) * real n"
    by (rule mult_right_mono) simp
  then have "\<lfloor>min 0.999 (max 0 ((t1 - start c) / d)) * real n\<rfloor>
      \<le> \<lfloor>min 0.999 (max 0 ((t2 - start c) / d)) * real n\<rfloor>"
    by (rule floor_mono)
  then show ?thesis
    unfolding activeIdx_def Let_def d_def [symmetric] by (intro min.mono order_refl)
qed

lemma renderCue_words:
  assumes "js_words (text_of c) = ws" and "ws \<noteq> []"
  shows "renderCue c t =
           Spans (map (\<lambda>(idx, w). (esc w, int idx = activeIdx c t (length ws))) (enumerate 0 ws))"
proof -
  from assms have "js_trim (text_of c) \<noteq> []"
    by (auto simp: js_words_def)
  with assms show ?thesis
    by (simp add: renderCue_def js_words_def Let_def)
qed

lemma js_words_example: "js_words ''one two three'' = [''one'', ''two'', ''three'']"
  by (simp add: js_words_def js_trim_def js_space_def)

text \<open>
  C8. For a cue whose text splits into \<open>n > 0\<close> words, \<open>renderCue\<close> marks as active
  the word at index \<open>min (n - 1) \<lfloor>progress * n\<rfloor>\<close> with
  \<open>progress = min 0.999 (max 0 ((t - start) / max 0.15 (end - start)))\<close>; the index lies
  between 0 and \<open>n - 1\<close>, never decreases as \<open>t\<close> grows, and for the text
  \<open>one two three\<close> with window 10 to 13 it is 0 at 10.0, 1 at 11.1 and 2 at 12.9.
\<close>

theorem active_word_index:
  fixes c :: cue and t :: real and ws :: "string list"
  assumes ws: "js_words (text_of c) = ws" and ne: "ws \<noteq> []"
  defines "n \<equiv> length ws"
  shows "renderCue c t = Spans (map (\<lambda>(idx, w). (esc w, int idx = activeIdx c t n)) (enumerate 0 ws))
    \<and> activeIdx c t n =
        min (int n - 1)
          \<lfloor>min 0.999 (max 0 ((t - start c) / max 0.15 (end_sec c - start c))) * real n\<rfloor>
    \<and> activeIdx c t n =
          \<lfloor>min 0.999 (max 0 ((t - start c) / max 0.15 (end_sec c - start c))) * real n\<rfloor>
    \<and> 0 \<le> activeIdx c t n \<and> activeIdx c t n \<le> int n - 1
    \<and> (\<forall>t1 t2. t1 \<le> t2 \<longrightarrow> activeIdx c t1 n \<le> activeIdx c t2 n)
    \<and> js_words ''one two three'' = [''one'', ''two'', ''three'']
    \<and> activeIdx \<lparr>start = 10.0, end_sec = 13.0, text_of = ''one two three''\<rparr> 10.0 3 = 0
    \<and> activeIdx \<lparr>start = 10.0, end_sec = 13.0, text_of = ''one two three''\<rparr> 11.1 3 = 1
    \<and> activeIdx \<lparr>start = 10.0, end_sec = 13.0, text_of = ''one two three''\<rparr> 12.9 3 = 2"
proof -
  from ne have n: "0 < n" by (simp add: n_def)
  have r: "renderCue c t = Spans (map (\<lambda>(idx, w). (esc w, int idx = activeIdx c t n)) (enumerate 0 ws))"
    unfolding n_def using ws ne by (rule renderCue_words)
  have d: "activeIdx c t n =
        min (int n - 1)
          \<lfloor>min 0.999 (max 0 ((t - start c) / max 0.15 (end_sec c - start c))) * real n\<rfloor>"
    by (simp add: activeIdx_def Let_def)
  note f = activeIdx_floor [OF n, of c t]
  have m: "\<forall>t1 t2. t1 \<le> t2 \<longrightarrow> activeIdx c t1 n \<le> activeIdx c t2 n"
    by (simp add: activeIdx_mono)
  have e0: "activeIdx \<lparr>start = 10.0, end_sec = 13.0, text_of = ''one two three''\<rparr> 10.0 3 = 0"
    by (simp add: activeIdx_def)
  have e1: "activeIdx \<lparr>start = 10.0, end_sec = 13.0, text_of = ''one two three''\<rparr> 11.1 3 = 1"
    by (simp add: activeIdx_def)
  have e2: "activeIdx \<lparr>start = 10.0, end_sec = 13.0, text_of = ''one two three''\<rparr> 12.9 3 = 2"
    by (simp add: activeIdx_def)
  from r d f m js_words_example e0 e1 e2 show ?thesis by blast
qed

theorem active_word_index_witness:
  "js_words (text_of \<lparr>start = 10.0, end_sec = 13.0, text_of = ''one two three''\<rparr>)
     = [''one'', ''two'', ''three'']
   \<and> [''one'', ''two'', ''three''] \<noteq> []
   \<and> (11.1 :: real) \<le> 12.9
   \<and> renderCue \<lparr>start = 10.0, end_sec = 13.0, text_of = ''one two three''\<rparr> 11.1
       = Spans [(''one'', False), (''two'', True), (''three'', False)]
   \<and> activeIdx \<lparr>start = 10.0, end_sec = 13.0, text_of = ''one two three''\<rparr> 11.1 3
       \<le> activeIdx \<lparr>start = 10.0, end_sec = 13.0, text_of = ''one two three''\<rparr> 12.9 3"
proof -
  let ?c = "\<lparr>start = 10.0, end_sec = 13.0, text_of = ''one two three''\<rparr>"
  let ?ws = "[''one'', ''two'', ''three'']"
  have w: "js_words (text_of ?c) = ?ws" using js_words_example by simp
  have ne: "?ws \<noteq> []" by simp
  have le: "(11.1 :: real) \<le> 12.9" by simp
  note T = active_word_index [OF w ne, of "11.1"]
  from T have idx: "activeIdx ?c 11.1 (length ?ws) = 1" by simp
  from T have "renderCue ?c 11.1
      = Spans (map (\<lambda>(idx, w). (esc w, int idx = activeIdx ?c 11.1 (length ?ws))) (enumerate 0 ?ws))"
    by blast
  then have r: "renderCue ?c 11.1 = Spans [(''one'', False), (''two'', True), (''three'', False)]"
    unfolding idx by (simp add: esc_def)
  from T have "\<forall>t1 t2. t1 \<le> t2 \<longrightarrow> activeIdx ?c t1 (length ?ws) \<le> activeIdx ?c t2 (length ?ws)"
    by blast
  with le have "activeIdx ?c 11.1 (length ?ws) \<le> activeIdx ?c 12.9 (length ?ws)" by blast
  moreover have "length ?ws = 3" by simp
  ultimately have mono: "activeIdx ?c 11.1 3 \<le> activeIdx ?c 12.9 3" by (simp only:)
  from w ne le r mono show ?thesis by blast
qed

subsection \<open>The LRC parser\<close>

lemma match_char_None: "match_char c s = None \<longleftrightarrow> (s = [] \<or> hd s \<noteq> c)"
  by (auto simp: match_char_def split: list.splits)

lemma match_digits_append:
  "list_all is_digit g \<Longrightarrow> lo \<le> length g \<Longrightarrow> length g \<le> hi \<Longrightarrow>
   r = [] \<or> \<not> is_digit (hd r) \<Longrightarrow>
     match_digits lo hi (g @ r) = Some (g, r)"
proof -
  assume g: "list_all is_digit g" and lo: "lo \<le> length g" and hi: "length g \<le> hi"
    and r: "r = [] \<or> \<not> is_digit (hd r)"
  from r have tr: "takeWhile is_digit r = []" by (cases r) auto
  from r have dr: "dropWhile is_digit r = r" by (cases r) auto
  from g have "takeWhile is_digit (g @ r) = g @ takeWhile is_digit r"
    by (simp add: list_all_iff)
  moreover from g have "dropWhile is_digit (g @ r) = dropWhile is_digit r"
    by (simp add: list_all_iff)
  ultimately show ?thesis using lo hi tr dr by (simp add: match_digits_def)
qed

lemma not_digit_punct [simp]:
  "\<not> is_digit CHR '':''" "\<not> is_digit CHR '']''" "\<not> is_digit CHR ''.''" "\<not> is_digit CHR ''[''"
  by (simp_all add: is_digit_def)

lemma match_ts_complete:
  assumes "wf_ts g"
  shows "match_ts (show_ts g @ r) = Some (g, r)"
proof -
  obtain g1 g2 g3 where g: "g = (g1, g2, g3)" by (cases g)
  from assms have w1: "list_all is_digit g1" "1 \<le> length g1" "length g1 \<le> 2"
    and w2: "list_all is_digit g2" "2 \<le> length g2" "length g2 \<le> 2"
    by (simp_all add: wf_ts_def g)
  show ?thesis
  proof (cases g3)
    case None
    have a: "match_digits 1 2 (g1 @ CHR '':'' # g2 @ CHR '']'' # r)
        = Some (g1, CHR '':'' # g2 @ CHR '']'' # r)"
      using w1 by (intro match_digits_append) simp_all
    have b: "match_digits 2 2 (g2 @ CHR '']'' # r) = Some (g2, CHR '']'' # r)"
      using w2 by (intro match_digits_append) simp_all
    show ?thesis
      by (simp add: match_ts_def g None show_ts_def match_char_def a b del: One_nat_def)
  next
    case (Some f)
    with assms have w3: "list_all is_digit f" "1 \<le> length f" "length f \<le> 3"
      by (simp_all add: wf_ts_def g)
    have a: "match_digits 1 2 (g1 @ CHR '':'' # g2 @ CHR ''.'' # f @ CHR '']'' # r)
        = Some (g1, CHR '':'' # g2 @ CHR ''.'' # f @ CHR '']'' # r)"
      using w1 by (intro match_digits_append) simp_all
    have b: "match_digits 2 2 (g2 @ CHR ''.'' # f @ CHR '']'' # r)
        = Some (g2, CHR ''.'' # f @ CHR '']'' # r)"
      using w2 by (intro match_digits_append) simp_all
    have c: "match_digits 1 3 (f @ CHR '']'' # r) = Some (f, CHR '']'' # r)"
      using w3 by (intro match_digits_append) simp_all
    show ?thesis
      by (simp add: match_ts_def g Some show_ts_def match_char_def a b c del: One_nat_def)
  qed
qed

lemma last_dropWhile: "dropWhile P xs \<noteq> [] \<Longrightarrow> last (dropWhile P xs) = last xs"
  by (induction xs) (auto split: if_splits)

lemma strip_edges:
  assumes "strip s \<noteq> []"
  shows "\<not> py_space (hd (strip s)) \<and> \<not> py_space (last (strip s))"
proof -
  define u where "u = dropWhile py_space s"
  define v where "v = dropWhile py_space (rev u)"
  have sv: "strip s = rev v" by (simp add: strip_def u_def v_def)
  with assms have v: "v \<noteq> []" by simp
  then have ru: "rev u \<noteq> []" by (auto simp: v_def)
  then have u: "u \<noteq> []" by simp
  from v have "\<not> py_space (hd v)" unfolding v_def by (rule hd_dropWhile)
  then have l: "\<not> py_space (last (rev v))" using v by (simp add: last_rev)
  from u have "\<not> py_space (hd u)" unfolding u_def by (rule hd_dropWhile)
  moreover from v have "last v = last (rev u)" unfolding v_def by (rule last_dropWhile)
  moreover have "last (rev u) = hd u" using u by (simp add: last_rev)
  moreover have "hd (rev v) = last v" using v by (simp add: hd_rev)
  ultimately have "\<not> py_space (hd (rev v))" by simp
  with l sv show ?thesis by simp
qed

lemma set_dedup_loop: "set (dedup_loop l xs) \<subseteq> set xs"
  by (induction xs arbitrary: l) auto

lemma total_seconds_nonneg: "0 \<le> total_seconds ts"
  by (cases ts) (simp add: total_seconds_def Let_def)

lemma line_cues_elem:
  assumes "(t, x) \<in> set (line_cues raw_line)"
  shows "x \<noteq> [] \<and> \<not> py_space (hd x) \<and> \<not> py_space (last x) \<and> 0 \<le> t"
proof -
  from assms have "(\<exists>y. x = strip y) \<and> x \<noteq> [] \<and> (\<exists>ts. t = total_seconds ts)"
    by (auto simp: line_cues_def Let_def split: if_splits option.splits)
  then obtain y ts where x: "x = strip y" and ne: "x \<noteq> []" and t: "t = total_seconds ts"
    by blast
  from ne strip_edges [of y] x
  have "\<not> py_space (hd x) \<and> \<not> py_space (last x)" by simp
  with ne t total_seconds_nonneg [of ts] show ?thesis by simp
qed

lemma set_parse:
  "set (parse_lrc_synced_lines lrc_text)
     \<subseteq> (\<Union>l \<in> set (split_nl (filter (\<lambda>c. c \<noteq> CHR 0x0D) lrc_text)). set (line_cues l))"
proof (cases "lrc_text = []")
  case True
  then show ?thesis by (simp add: parse_lrc_synced_lines_def)
next
  case False
  let ?cues = "concat (map line_cues (split_nl (filter (\<lambda>c. c \<noteq> CHR 0x0D) lrc_text)))"
  from False have "parse_lrc_synced_lines lrc_text = dedup_loop None (sort_key fst ?cues)"
    by (simp add: parse_lrc_synced_lines_def Let_def)
  then have "set (parse_lrc_synced_lines lrc_text) \<subseteq> set (sort_key fst ?cues)"
    using set_dedup_loop [of None "sort_key fst ?cues"] by simp
  then show ?thesis by auto
qed

lemma show_ts_Cons: "show_ts g = CHR ''['' # tl (show_ts g)"
  by (cases g) (simp add: show_ts_def)

lemma leading_tags_None: "match_ts rest = None \<Longrightarrow> leading_tags rest = ([], rest)"
  by (cases rest) simp_all

lemma leading_tags_complete:
  "\<forall>g \<in> set gs. wf_ts g \<Longrightarrow> match_ts rest = None \<Longrightarrow>
     leading_tags (concat (map show_ts gs) @ rest) = (gs, rest)"
proof (induction gs)
  case Nil
  then show ?case by (simp add: leading_tags_None)
next
  case (Cons g gs)
  let ?r = "concat (map show_ts gs) @ rest"
  from Cons.prems have m: "match_ts (show_ts g @ ?r) = Some (g, ?r)"
    by (simp add: match_ts_complete)
  obtain c cs where c: "show_ts g @ ?r = c # cs"
    using show_ts_Cons [of g] by (metis append_Cons)
  from Cons have ih: "leading_tags ?r = (gs, rest)" by simp
  from m have m': "match_ts (c # cs) = Some (g, ?r)" by (simp only: c)
  have "leading_tags (c # cs) = (g # gs, rest)"
    by (simp add: m' ih)
  then show ?case by (simp add: c)
qed

lemma leading_tags_sound:
  "leading_tags s = (gs, rest) \<Longrightarrow>
     s = concat (map show_ts gs) @ rest \<and> (\<forall>g \<in> set gs. wf_ts g) \<and> match_ts rest = None"
proof (induction s arbitrary: gs rest rule: leading_tags.induct)
  case 1
  then show ?case by (simp add: match_ts_def match_char_def)
next
  case (2 c cs)
  show ?case
  proof (cases "match_ts (c # cs)")
    case None
    with "2.prems" show ?thesis by simp
  next
    case (Some p)
    obtain g r where p: "p = (g, r)" by (cases p)
    obtain gs' r' where l: "leading_tags r = (gs', r')" by (cases "leading_tags r")
    from "2.prems" Some p l have e: "gs = g # gs'" "rest = r'" by simp_all
    from "2.IH" [OF Some p [symmetric] l]
    have ih: "r = concat (map show_ts gs') @ r'" "\<forall>g \<in> set gs'. wf_ts g" "match_ts r' = None"
      by simp_all
    from match_ts_sound [of "c # cs" g r] Some p
    have "c # cs = show_ts g @ r" "wf_ts g" by simp_all
    with ih e show ?thesis by simp
  qed
qed

lemma finditer_complete:
  "\<forall>g \<in> set gs. wf_ts g \<Longrightarrow>
     finditer (concat (map show_ts gs) @ rest) = gs @ finditer rest"
proof (induction gs)
  case Nil
  then show ?case by simp
next
  case (Cons g gs)
  let ?r = "concat (map show_ts gs) @ rest"
  from Cons.prems have m: "match_ts (show_ts g @ ?r) = Some (g, ?r)"
    by (simp add: match_ts_complete)
  obtain c cs where c: "show_ts g @ ?r = c # cs"
    using show_ts_Cons [of g] by (metis append_Cons)
  from Cons have ih: "finditer ?r = gs @ finditer rest" by simp
  from m have m': "match_ts (c # cs) = Some (g, ?r)" by (simp only: c)
  have "finditer (c # cs) = g # gs @ finditer rest"
    by (simp add: m' ih)
  then show ?case by (simp add: c)
qed

lemma finditer_wf: "ts \<in> set (finditer s) \<Longrightarrow> wf_ts ts"
proof (induction s rule: finditer.induct)
  case 1
  then show ?case by simp
next
  case (2 c cs)
  show ?case
  proof (cases "match_ts (c # cs)")
    case None
    with "2.prems" "2.IH" (1) show ?thesis by simp
  next
    case (Some p)
    obtain g r where p: "p = (g, r)" by (cases p)
    from match_ts_sound [of "c # cs" g r] Some p have g: "wf_ts g" by simp
    from "2.prems" Some p have "ts = g \<or> ts \<in> set (finditer r)" by simp
    with g "2.IH" (2) [OF Some p [symmetric]] show ?thesis by blast
  qed
qed

lemma finditer_no_bracket: "CHR ''['' \<notin> set s \<Longrightarrow> finditer s = []"
proof (induction s)
  case Nil
  then show ?case by simp
next
  case (Cons c cs)
  then have "match_ts (c # cs) = None" by (auto simp: match_ts_def match_char_def)
  with Cons show ?case by simp
qed

lemma line_cues_structure:
  assumes line: "strip raw_line = concat (map show_ts gs) @ rest"
    and gs: "gs \<noteq> []" and wf: "\<forall>g \<in> set gs. wf_ts g"
    and rest: "match_ts rest = None"
  shows "line_cues raw_line =
           (if strip rest = [] then []
            else map (\<lambda>ts. (total_seconds ts, strip rest)) (gs @ finditer rest))"
proof -
  obtain g gs' where g: "gs = g # gs'" using gs by (cases gs) auto
  have ne: "strip raw_line \<noteq> []"
    using show_ts_Cons [of g] by (simp add: line g) (metis list.distinct(1))
  have lt: "leading_tags (strip raw_line) = (gs, rest)"
    unfolding line using wf rest by (rule leading_tags_complete)
  have lp: "line_pattern_match (strip raw_line) = Some (if rest = [] then None else Some rest)"
    by (simp add: line_pattern_match_def lt g)
  have g5: "strip (case (if rest = [] then None else Some rest) of None \<Rightarrow> [] | Some r \<Rightarrow> r)
      = strip rest" by simp
  have fi: "finditer (strip raw_line) = gs @ finditer rest"
    unfolding line using wf by (rule finditer_complete)
  show ?thesis
    unfolding line_cues_def Let_def lp fi using ne by (simp only: option.case g5 if_False)
qed

lemma digit_val_zero: "digit_val CHR ''0'' = 0"
  by (simp add: digit_val_def)

lemma pad_millis:
  assumes "1 \<le> length f" "length f \<le> 3"
  shows "py_int (take 3 (f @ ''000'')) = py_int f * 10 ^ (3 - length f)"
proof -
  from assms have "length f = 1 \<or> length f = 2 \<or> length f = 3" by arith
  then consider a where "f = [a]" | a b where "f = [a, b]" | a b c where "f = [a, b, c]"
    by (auto simp: length_Suc_conv numeral_2_eq_2 numeral_3_eq_3)
  then show ?thesis
    by cases (simp_all add: py_int_def digit_val_zero)
qed

lemma total_seconds_formula:
  assumes "wf_ts (mm, ss, fr)"
  shows "total_seconds (mm, ss, fr)
           = real (py_int mm) * 60 + real (py_int ss) + real (fraction_millis fr) / 1000"
proof (cases fr)
  case None
  then show ?thesis
    by (simp add: total_seconds_def fraction_millis_def py_int_def digit_val_zero)
next
  case (Some f)
  with assms have "1 \<le> length f" "length f \<le> 3" by (simp_all add: wf_ts_def)
  from pad_millis [OF this] Some \<open>1 \<le> length f\<close> show ?thesis
    by (auto simp: total_seconds_def fraction_millis_def Let_def)
qed

lemma remdups_adj_hd_tl: "remdups_adj (x # xs) = x # tl (remdups_adj (x # xs))"
  by (induction xs arbitrary: x) (auto split: if_splits)

lemma dedup_loop_Some: "dedup_loop (Some x) xs = tl (remdups_adj (x # xs))"
proof (induction xs arbitrary: x)
  case Nil
  then show ?case by simp
next
  case (Cons y ys)
  show ?case
  proof (cases "y = x")
    case True
    then show ?thesis by (simp add: Cons.IH)
  next
    case False
    then have "dedup_loop (Some x) (y # ys) = y # tl (remdups_adj (y # ys))"
      by (simp add: Cons.IH)
    also have "\<dots> = remdups_adj (y # ys)" by (rule remdups_adj_hd_tl [symmetric])
    finally show ?thesis using False by simp
  qed
qed

lemma dedup_loop_None: "dedup_loop None xs = remdups_adj xs"
proof (cases xs)
  case Nil
  then show ?thesis by simp
next
  case (Cons x ys)
  then show ?thesis
    using remdups_adj_hd_tl [of x ys] by (simp add: dedup_loop_Some)
qed

lemma sorted_map_remdups_adj: "sorted (map f xs) \<Longrightarrow> sorted (map f (remdups_adj xs))"
  by (induction xs rule: remdups_adj.induct) auto

lemma parse_sorted_adjacent:
  "sorted (map fst (parse_lrc_synced_lines lrc_text))
   \<and> distinct_adj (parse_lrc_synced_lines lrc_text)"
proof (cases "lrc_text = []")
  case True
  then show ?thesis by (simp add: parse_lrc_synced_lines_def)
next
  case False
  let ?cues = "concat (map line_cues (split_nl (filter (\<lambda>c. c \<noteq> CHR 0x0D) lrc_text)))"
  from False have p: "parse_lrc_synced_lines lrc_text = remdups_adj (sort_key fst ?cues)"
    by (simp add: parse_lrc_synced_lines_def Let_def dedup_loop_None)
  have "sorted (map fst (sort_key fst ?cues))" by (rule sorted_sort_key)
  then have "sorted (map fst (remdups_adj (sort_key fst ?cues)))"
    by (rule sorted_map_remdups_adj)
  then show ?thesis by (simp add: p)
qed

lemma parse_example:
  "parse_lrc_synced_lines (''[00:01.50]hello'' @ [CHR 0x0A] @ ''[00:03.00]world'')
     = [(1.5, ''hello''), (3.0, ''world'')]"
  by code_simp

text \<open>
  C4. The parser is a total function, and every timestamp it converts has digit
  groups of the lengths the pattern allows, so that \<^verbatim>\<open>int()\<close> is defined on them. A
  timestamp with groups \<open>mm\<close>, \<open>ss\<close> and optional fraction becomes
  \<open>mm * 60 + ss + millis / 1000\<close>, the fraction padded or cut to three digits
  (\<open>.5\<close> is 500 ms, \<open>.12\<close> is 120 ms, \<open>.123\<close> is 123 ms). A line that, once stripped,
  consists of timestamps followed by text that does not itself start with a timestamp
  and is not blank yields one pair per timestamp found on the line, each with the
  stripped text: the leading ones, then those inside the text, if any. The text
  \<open>[00:01.50]hello\<close>, line feed, \<open>[00:03.00]world\<close> parses to \<open>(1.5, hello)\<close>, \<open>(3.0, world)\<close>.
\<close>

theorem lrc_timestamp_conversion:
  "(\<forall>ts \<in> set (finditer line). wf_ts ts)
   \<and> (wf_ts (mm, ss, fr) \<longrightarrow>
        total_seconds (mm, ss, fr)
          = real (py_int mm) * 60 + real (py_int ss) + real (fraction_millis fr) / 1000)
   \<and> fraction_millis (Some ''5'') = 500
   \<and> fraction_millis (Some ''12'') = 120
   \<and> fraction_millis (Some ''123'') = 123
   \<and> (strip raw_line = concat (map show_ts gs) @ rest \<and> gs \<noteq> [] \<and> (\<forall>g \<in> set gs. wf_ts g)
        \<and> match_ts rest = None \<and> strip rest \<noteq> [] \<longrightarrow>
        line_cues raw_line = map (\<lambda>ts. (total_seconds ts, strip rest)) (gs @ finditer rest))
   \<and> (strip raw_line = concat (map show_ts gs) @ rest \<and> gs \<noteq> [] \<and> (\<forall>g \<in> set gs. wf_ts g)
        \<and> CHR ''['' \<notin> set rest \<and> strip rest \<noteq> [] \<longrightarrow>
        line_cues raw_line = map (\<lambda>ts. (total_seconds ts, strip rest)) gs)
   \<and> parse_lrc_synced_lines (''[00:01.50]hello'' @ [CHR 0x0A] @ ''[00:03.00]world'')
        = [(1.5, ''hello''), (3.0, ''world'')]"
proof -
  have a: "\<forall>ts \<in> set (finditer line). wf_ts ts" by (simp add: finditer_wf)
  have b: "total_seconds (mm, ss, fr)
          = real (py_int mm) * 60 + real (py_int ss) + real (fraction_millis fr) / 1000"
    if "wf_ts (mm, ss, fr)" using that by (rule total_seconds_formula)
  have c: "fraction_millis (Some ''5'') = 500" "fraction_millis (Some ''12'') = 120"
    "fraction_millis (Some ''123'') = 123"
    by (simp_all add: fraction_millis_def py_int_def digit_val_def)
  have d: "line_cues raw_line = map (\<lambda>ts. (total_seconds ts, strip rest)) (gs @ finditer rest)"
    if "strip raw_line = concat (map show_ts gs) @ rest \<and> gs \<noteq> [] \<and> (\<forall>g \<in> set gs. wf_ts g)
        \<and> match_ts rest = None \<and> strip rest \<noteq> []"
    using that line_cues_structure [of raw_line gs rest] by simp
  have e: "line_cues raw_line = map (\<lambda>ts. (total_seconds ts, strip rest)) gs"
    if h: "strip raw_line = concat (map show_ts gs) @ rest \<and> gs \<noteq> [] \<and> (\<forall>g \<in> set gs. wf_ts g)
        \<and> CHR ''['' \<notin> set rest \<and> strip rest \<noteq> []"
  proof -
    from h have f: "finditer rest = []" by (simp add: finditer_no_bracket)
    from h have "match_ts rest = None" by (cases rest) (auto simp: match_ts_def match_char_def)
    with h d f show ?thesis by simp
  qed
  from a b c d e parse_example show ?thesis by blast
qed

theorem lrc_timestamp_conversion_witness:
  "(''00'', ''01'', Some ''5'') \<in> set (finditer ''[00:01.5]x'')
   \<and> wf_ts (''00'', ''01'', Some ''5'')
   \<and> total_seconds (''00'', ''01'', Some ''5'') = 3 / 2
   \<and> strip ''  [00:01.5][02:03]hello you ''
        = concat (map show_ts [(''00'', ''01'', Some ''5''), (''02'', ''03'', None)]) @ ''hello you''
   \<and> [(''00'', ''01'', Some ''5''), (''02'', ''03'', None)] \<noteq> []
   \<and> wf_ts (''02'', ''03'', None)
   \<and> match_ts ''hello you'' = None
   \<and> CHR ''['' \<notin> set ''hello you''
   \<and> strip ''hello you'' \<noteq> []
   \<and> line_cues ''  [00:01.5][02:03]hello you '' = [(3 / 2, ''hello you''), (123, ''hello you'')]"
proof -
  let ?g = "(''00'', ''01'', Some ''5'')"
  let ?gs = "[(''00'', ''01'', Some ''5''), (''02'', ''03'', None)]"
  let ?raw = "''  [00:01.5][02:03]hello you ''"
  let ?rest = "''hello you''"
  note T = lrc_timestamp_conversion
    [where line = "''[00:01.5]x''" and mm = "''00''" and ss = "''01''" and fr = "Some ''5''"
       and raw_line = ?raw and gs = ?gs and rest = ?rest]
  have m: "?g \<in> set (finditer ''[00:01.5]x'')" by code_simp
  with T have w: "wf_ts ?g" by blast
  with T have "total_seconds ?g
      = real (py_int ''00'') * 60 + real (py_int ''01'') + real (fraction_millis (Some ''5'')) / 1000"
    by blast
  moreover from T have "fraction_millis (Some ''5'') = 500" by blast
  ultimately have s: "total_seconds ?g = 3 / 2"
    by (simp add: py_int_def digit_val_def)
  have h1: "strip ?raw = concat (map show_ts ?gs) @ ?rest" by code_simp
  have h2: "?gs \<noteq> []" by simp
  have h3: "\<forall>g \<in> set ?gs. wf_ts g" by (simp add: wf_ts_def is_digit_def)
  have h4: "match_ts ?rest = None" by code_simp
  have h5: "CHR ''['' \<notin> set ?rest" by simp
  have h6: "strip ?rest \<noteq> []" by code_simp
  from T h1 h2 h3 h5 h6
  have "line_cues ?raw = map (\<lambda>ts. (total_seconds ts, strip ?rest)) ?gs" by blast
  also have "\<dots> = [(3 / 2, ''hello you''), (123, ''hello you'')]" by code_simp
  finally have r: "line_cues ?raw = [(3 / 2, ''hello you''), (123, ''hello you'')]" .
  have w2: "wf_ts (''02'', ''03'', None)" using h3 by simp
  from m w s h1 h2 w2 h4 h5 h6 r show ?thesis by blast
qed

text \<open>
  C9. Every pair the parser returns has a text that is not empty and neither starts nor
  ends with white space, and a time that is not negative. A line whose text after the
  leading timestamps is empty once stripped adds no pair.
\<close>

theorem parsed_pairs_clean:
  "(\<forall>(t, x) \<in> set (parse_lrc_synced_lines lrc_text).
       x \<noteq> [] \<and> \<not> py_space (hd x) \<and> \<not> py_space (last x) \<and> 0 \<le> t)
   \<and> (\<forall>raw_line gs rest.
         strip raw_line = concat (map show_ts gs) @ rest \<and> (\<forall>g \<in> set gs. wf_ts g)
         \<and> match_ts rest = None \<and> strip rest = [] \<longrightarrow> line_cues raw_line = [])"
proof -
  have a: "\<forall>(t, x) \<in> set (parse_lrc_synced_lines lrc_text).
       x \<noteq> [] \<and> \<not> py_space (hd x) \<and> \<not> py_space (last x) \<and> 0 \<le> t"
  proof (clarify)
    fix t x assume "(t, x) \<in> set (parse_lrc_synced_lines lrc_text)"
    with set_parse obtain l where "(t, x) \<in> set (line_cues l)" by blast
    then show "x \<noteq> [] \<and> \<not> py_space (hd x) \<and> \<not> py_space (last x) \<and> 0 \<le> t"
      by (rule line_cues_elem)
  qed
  have b: "line_cues raw_line = []"
    if h: "strip raw_line = concat (map show_ts gs) @ rest \<and> (\<forall>g \<in> set gs. wf_ts g)
         \<and> match_ts rest = None \<and> strip rest = []" for raw_line gs rest
  proof (cases "gs = []")
    case True
    with h have "leading_tags (strip raw_line) = ([], rest)" by (simp add: leading_tags_None)
    then show ?thesis by (simp add: line_cues_def line_pattern_match_def Let_def)
  next
    case False
    with h line_cues_structure [of raw_line gs rest] show ?thesis by simp
  qed
  from a b show ?thesis by blast
qed

theorem parsed_pairs_clean_witness:
  "(3 / 2, ''hello'') \<in> set (parse_lrc_synced_lines ''[00:01.50] hello '')
   \<and> ''hello'' \<noteq> [] \<and> \<not> py_space (hd ''hello'') \<and> \<not> py_space (last ''hello'')
   \<and> (0 :: real) \<le> 3 / 2
   \<and> strip ''[00:01.00]   '' = concat (map show_ts [(''00'', ''01'', Some ''00'')]) @ []
   \<and> wf_ts (''00'', ''01'', Some ''00'')
   \<and> match_ts [] = None \<and> strip [] = []
   \<and> line_cues ''[00:01.00]   '' = []"
proof -
  note T = parsed_pairs_clean [of "''[00:01.50] hello ''"]
  have m: "(3 / 2, ''hello'') \<in> set (parse_lrc_synced_lines ''[00:01.50] hello '')"
    by code_simp
  from T have "\<forall>(t, x) \<in> set (parse_lrc_synced_lines ''[00:01.50] hello '').
       x \<noteq> [] \<and> \<not> py_space (hd x) \<and> \<not> py_space (last x) \<and> 0 \<le> t" by blast
  with m have a: "''hello'' \<noteq> [] \<and> \<not> py_space (hd ''hello'') \<and> \<not> py_space (last ''hello'')
      \<and> (0 :: real) \<le> 3 / 2" by blast
  have h1: "strip ''[00:01.00]   '' = concat (map show_ts [(''00'', ''01'', Some ''00'')]) @ []"
    by code_simp
  have h2: "\<forall>g \<in> set [(''00'', ''01'', Some ''00'')]. wf_ts g"
    by (simp add: wf_ts_def is_digit_def)
  have h3: "match_ts [] = None" by code_simp
  have h4: "strip [] = []" by code_simp
  from T h1 h2 h3 h4 have r: "line_cues ''[00:01.00]   '' = []" by blast
  have w: "wf_ts (''00'', ''01'', Some ''00'')" using h2 by simp
  from m a h1 w h3 h4 r show ?thesis by blast
qed

text \<open>
  C6. The claim that no pair occurs twice in the output does not hold of the code. The
  sort is keyed on the time alone and the loop drops a pair only when it equals the one
  just before it, so of two equal pairs separated by a pair with the same time and
  another text both are kept: three lines stamped \<open>[00:01.00]\<close> with the texts \<open>a\<close>, \<open>b\<close>,
  \<open>a\<close> give three pairs, the first and the third equal, and the cue list built from
  them has two cues with start 1 and text \<open>a\<close>.
\<close>

theorem interleaved_duplicates_survive:
  "parse_lrc_synced_lines
     (''[00:01.00]a'' @ [CHR 0x0A] @ ''[00:01.00]b'' @ [CHR 0x0A] @ ''[00:01.00]a'')
     = [(1, ''a''), (1, ''b''), (1, ''a'')]
   \<and> \<not> distinct (parse_lrc_synced_lines
     (''[00:01.00]a'' @ [CHR 0x0A] @ ''[00:01.00]b'' @ [CHR 0x0A] @ ''[00:01.00]a''))
   \<and> build_overlay_cues [] 2.8 (Some (parse_lrc_synced_lines
     (''[00:01.00]a'' @ [CHR 0x0A] @ ''[00:01.00]b'' @ [CHR 0x0A] @ ''[00:01.00]a'')))
     = [\<lparr>start = 1, end_sec = 1.15, text_of = ''a''\<rparr>,
        \<lparr>start = 1, end_sec = 1.15, text_of = ''b''\<rparr>,
        \<lparr>start = 1, end_sec = 3.8, text_of = ''a''\<rparr>]"
proof -
  have e: "parse_lrc_synced_lines
     (''[00:01.00]a'' @ [CHR 0x0A] @ ''[00:01.00]b'' @ [CHR 0x0A] @ ''[00:01.00]a'')
     = [(1, ''a''), (1, ''b''), (1, ''a'')]"
    by code_simp
  have r: "py_round3 1 = 1" "py_round3 (23 / 20) = 23 / 20" "py_round3 (19 / 5) = 19 / 5"
    by (simp_all add: py_round3_def round_half_even_def)
  show ?thesis unfolding e by (simp add: build_overlay_cues_def r)
qed

subsection \<open>Fetching with retries\<close>

lemma step_success:
  "http a = Inr j \<Longrightarrow> retry_loop http url t (a # rest) le = (Inr j, [HttpGet url t])"
  by simp

lemma step_stop:
  "http a = Inl e \<Longrightarrow> \<not> (a < LYRICS_MAX_RETRIES \<and> retry_class e) \<Longrightarrow>
     retry_loop http url t (a # rest) le = (Inl e, [HttpGet url t])"
  by (cases e) (auto simp: retry_class_def split: option.splits)

lemma step_retry:
  "http a = Inl e \<Longrightarrow> a < LYRICS_MAX_RETRIES \<Longrightarrow> retry_class e \<Longrightarrow>
     retry_loop http url t (a # rest) le =
       (fst (retry_loop http url t rest (Some e)),
        HttpGet url t # Sleep (LYRICS_BACKOFF_SECONDS * real a)
          # snd (retry_loop http url t rest (Some e)))"
  by (cases e) (auto simp: retry_class_def split: option.splits prod.splits)

lemma attempt_range: "[1 ..< LYRICS_MAX_RETRIES + 1] = [1, 2, 3]"
  by (simp add: LYRICS_MAX_RETRIES_def upt_rec)

lemma schedule_1: "schedule url t 1 = [HttpGet url t]"
  by (simp add: schedule_def)

lemma schedule_2: "schedule url t 2 = [HttpGet url t, Sleep (1.2 * 1), HttpGet url t]"
  by (simp add: schedule_def upt_rec)

lemma schedule_3:
  "schedule url t 3 =
     [HttpGet url t, Sleep (1.2 * 1), HttpGet url t, Sleep (1.2 * 2), HttpGet url t]"
  by (simp add: schedule_def upt_rec)

lemma attempts_schedule: "attempts (schedule url t n) = length [1 ..< n] + 1"
proof -
  have "attempts (concat (map (\<lambda>k. [HttpGet url t, Sleep (1.2 * real k)]) ks) @ [HttpGet url t])
      = length ks + 1" for ks
    by (induction ks) (simp_all add: attempts_def)
  then show ?thesis by (simp only: schedule_def)
qed

lemma sleeps_schedule: "sleeps (schedule url t n) = map (\<lambda>k. 1.2 * real k) [1 ..< n]"
proof -
  have "sleeps (concat (map (\<lambda>k. [HttpGet url t, Sleep (1.2 * real k)]) ks) @ [HttpGet url t])
      = map (\<lambda>k. 1.2 * real k) ks" for ks
    by (induction ks) (simp_all add: sleeps_def)
  then show ?thesis by (simp only: schedule_def)
qed

lemma run_shape:
  "\<exists>n. 1 \<le> n \<and> n \<le> 3
     \<and> get_json_with_retries http url t = (http n, schedule url t n)
     \<and> (\<forall>k. 1 \<le> k \<and> k < n \<longrightarrow> (\<exists>e. http k = Inl e \<and> retry_class e))
     \<and> (n < 3 \<longrightarrow> (\<forall>e. http n = Inl e \<longrightarrow> \<not> retry_class e))"
proof -
  let ?run = "get_json_with_retries http url t"
  have run: "?run = retry_loop http url t [1, 2, 3] None"
    by (simp only: get_json_with_retries_def attempt_range)
  have lt: "(1::nat) < LYRICS_MAX_RETRIES" "(2::nat) < LYRICS_MAX_RETRIES"
    "\<not> (3::nat) < LYRICS_MAX_RETRIES"
    by (simp_all add: LYRICS_MAX_RETRIES_def)
  have b: "LYRICS_BACKOFF_SECONDS = 1.2" by (rule LYRICS_BACKOFF_SECONDS_def)
  have one: "?thesis" if r: "?run = (http 1, schedule url t 1)"
    and s: "\<forall>e. http 1 = Inl e \<longrightarrow> \<not> retry_class e"
  proof -
    have "1 \<le> (1::nat) \<and> (1::nat) \<le> 3
     \<and> ?run = (http 1, schedule url t 1)
     \<and> (\<forall>k. 1 \<le> k \<and> k < (1::nat) \<longrightarrow> (\<exists>e. http k = Inl e \<and> retry_class e))
     \<and> ((1::nat) < 3 \<longrightarrow> (\<forall>e. http 1 = Inl e \<longrightarrow> \<not> retry_class e))"
      using r s by simp
    then show ?thesis by blast
  qed
  have two: "?thesis" if r: "?run = (http 2, schedule url t 2)"
    and p: "\<exists>e. http 1 = Inl e \<and> retry_class e"
    and s: "\<forall>e. http 2 = Inl e \<longrightarrow> \<not> retry_class e"
  proof -
    have q: "\<forall>k. 1 \<le> k \<and> k < (2::nat) \<longrightarrow> (\<exists>e. http k = Inl e \<and> retry_class e)"
    proof (intro allI impI)
      fix k :: nat assume "1 \<le> k \<and> k < 2"
      then have "k = 1" by arith
      with p show "\<exists>e. http k = Inl e \<and> retry_class e" by simp
    qed
    have "1 \<le> (2::nat) \<and> (2::nat) \<le> 3
     \<and> ?run = (http 2, schedule url t 2)
     \<and> (\<forall>k. 1 \<le> k \<and> k < (2::nat) \<longrightarrow> (\<exists>e. http k = Inl e \<and> retry_class e))
     \<and> ((2::nat) < 3 \<longrightarrow> (\<forall>e. http 2 = Inl e \<longrightarrow> \<not> retry_class e))"
      using r s q by simp
    then show ?thesis by blast
  qed
  have three: "?thesis" if r: "?run = (http 3, schedule url t 3)"
    and p1: "\<exists>e. http 1 = Inl e \<and> retry_class e"
    and p2: "\<exists>e. http 2 = Inl e \<and> retry_class e"
  proof -
    have q: "\<forall>k. 1 \<le> k \<and> k < (3::nat) \<longrightarrow> (\<exists>e. http k = Inl e \<and> retry_class e)"
    proof (intro allI impI)
      fix k :: nat assume "1 \<le> k \<and> k < 3"
      then have "k = 1 \<or> k = 2" by arith
      with p1 p2 show "\<exists>e. http k = Inl e \<and> retry_class e" by auto
    qed
    have "1 \<le> (3::nat) \<and> (3::nat) \<le> 3
     \<and> ?run = (http 3, schedule url t 3)
     \<and> (\<forall>k. 1 \<le> k \<and> k < (3::nat) \<longrightarrow> (\<exists>e. http k = Inl e \<and> retry_class e))
     \<and> ((3::nat) < 3 \<longrightarrow> (\<forall>e. http 3 = Inl e \<longrightarrow> \<not> retry_class e))"
      using r q by simp
    then show ?thesis by blast
  qed
  show ?thesis
  proof (cases "http 1")
    case (Inr j)
    have "retry_loop http url t [1, 2, 3] None = (Inr j, [HttpGet url t])"
      using Inr by (rule step_success [where http = http and a = 1])
    then have "?run = (http 1, schedule url t 1)"
      by (simp only: run Inr schedule_1)
    with Inr show ?thesis by (intro one) simp_all
  next
    case e1: (Inl e1)
    show ?thesis
    proof (cases "retry_class e1")
      case False
      then have "\<not> (1 < LYRICS_MAX_RETRIES \<and> retry_class e1)" by simp
      with e1 have "retry_loop http url t [1, 2, 3] None = (Inl e1, [HttpGet url t])"
        by (rule step_stop [where http = http and a = 1])
      then have "?run = (http 1, schedule url t 1)"
        by (simp only: run e1 schedule_1)
      with e1 False show ?thesis by (intro one) simp_all
    next
      case r1: True
      have s1: "retry_loop http url t [1, 2, 3] None =
          (fst (retry_loop http url t [2, 3] (Some e1)),
           HttpGet url t # Sleep (LYRICS_BACKOFF_SECONDS * real 1)
             # snd (retry_loop http url t [2, 3] (Some e1)))"
        using e1 lt(1) r1 by (rule step_retry [where http = http and a = 1])
      from e1 r1 have p1: "\<exists>e. http 1 = Inl e \<and> retry_class e" by blast
      show ?thesis
      proof (cases "http 2")
        case (Inr j)
        have s2: "retry_loop http url t [2, 3] (Some e1) = (Inr j, [HttpGet url t])"
          using Inr by (rule step_success [where http = http and a = 2])
        have "?run = (http 2, schedule url t 2)"
          unfolding run s1 s2 schedule_2 b Inr by simp
        with Inr p1 show ?thesis by (intro two) simp_all
      next
        case e2: (Inl e2)
        show ?thesis
        proof (cases "retry_class e2")
          case False
          then have "\<not> (2 < LYRICS_MAX_RETRIES \<and> retry_class e2)" by simp
          with e2 have s2: "retry_loop http url t [2, 3] (Some e1) = (Inl e2, [HttpGet url t])"
            by (rule step_stop [where http = http and a = 2])
          have "?run = (http 2, schedule url t 2)"
            unfolding run s1 s2 schedule_2 b e2 by simp
          with e2 False p1 show ?thesis by (intro two) simp_all
        next
          case r2: True
          have s2: "retry_loop http url t [2, 3] (Some e1) =
              (fst (retry_loop http url t [3] (Some e2)),
               HttpGet url t # Sleep (LYRICS_BACKOFF_SECONDS * real 2)
                 # snd (retry_loop http url t [3] (Some e2)))"
            using e2 lt(2) r2 by (rule step_retry [where http = http and a = 2])
          from e2 r2 have p2: "\<exists>e. http 2 = Inl e \<and> retry_class e" by blast
          have s3: "retry_loop http url t [3] (Some e2) = (http 3, [HttpGet url t])"
          proof (cases "http 3")
            case (Inr j)
            have "retry_loop http url t [3] (Some e2) = (Inr j, [HttpGet url t])"
              using Inr by (rule step_success [where http = http and a = 3])
            with Inr show ?thesis by simp
          next
            case (Inl e3)
            from lt(3) have "\<not> (3 < LYRICS_MAX_RETRIES \<and> retry_class e3)" by simp
            with Inl have "retry_loop http url t [3] (Some e2) = (Inl e3, [HttpGet url t])"
              by (rule step_stop [where http = http and a = 3])
            with Inl show ?thesis by simp
          qed
          have "?run = (http 3, schedule url t 3)"
            unfolding run s1 s2 s3 schedule_3 b by simp
          with p1 p2 show ?thesis by (intro three) simp_all
        qed
      qed
    qed
  qed
qed

text \<open>
  C2. For every URL and every behaviour of the network, the fetch sends at least one and
  at most three requests; after attempt \<open>k\<close>, if another follows, it sleeps \<open>1.2 * k\<close>
  seconds; every attempt before the last failed with an error that is retried (an HTTP
  error whose status is one of 408, 429, 500, 502, 503, 504, or a timeout or connection
  error); the call ends with the outcome of its last attempt, and it stops before the
  third attempt only on a success or on an error that is not retried, which is raised at
  once. Two HTTP 503 failures and then a success make three requests and two sleeps and
  return the payload.
\<close>

theorem retry_policy:
  fixes http :: "nat \<Rightarrow> exn + 'a" and url :: string and timeout_seconds :: nat
  defines "run \<equiv> get_json_with_retries http url timeout_seconds"
  defines "n \<equiv> attempts (snd run)"
  shows "1 \<le> n \<and> n \<le> 3
    \<and> snd run = schedule url timeout_seconds n
    \<and> sleeps (snd run) = map (\<lambda>k. 1.2 * real k) [1 ..< n]
    \<and> fst run = http n
    \<and> (\<forall>k. 1 \<le> k \<and> k < n \<longrightarrow> (\<exists>e. http k = Inl e \<and> retry_class e))
    \<and> (n < 3 \<longrightarrow> (\<forall>e. http n = Inl e \<longrightarrow> \<not> retry_class e))
    \<and> (\<forall>k e. 1 \<le> k \<and> k \<le> n \<and> http k = Inl e \<and> \<not> retry_class e \<longrightarrow>
          k = n \<and> fst run = Inl e)
    \<and> (\<forall>p. http 1 = Inl (HTTPError (Some 503)) \<and> http 2 = Inl (HTTPError (Some 503))
            \<and> http 3 = Inr p \<longrightarrow>
          run = (Inr p, [HttpGet url timeout_seconds, Sleep (1.2 * 1),
                         HttpGet url timeout_seconds, Sleep (1.2 * 2),
                         HttpGet url timeout_seconds])
          \<and> n = 3 \<and> length (sleeps (snd run)) = 2)"
proof -
  from run_shape [of http url timeout_seconds] obtain m where
      m: "1 \<le> m" "m \<le> 3"
      and r: "run = (http m, schedule url timeout_seconds m)"
      and early: "\<forall>k. 1 \<le> k \<and> k < m \<longrightarrow> (\<exists>e. http k = Inl e \<and> retry_class e)"
      and stop: "m < 3 \<longrightarrow> (\<forall>e. http m = Inl e \<longrightarrow> \<not> retry_class e)"
    unfolding run_def by blast
  have "n = length [1 ..< m] + 1"
    by (simp only: n_def r snd_conv attempts_schedule)
  with m have nm: "n = m" by simp
  have a: "1 \<le> n \<and> n \<le> 3" using m nm by simp
  have b: "snd run = schedule url timeout_seconds n" by (simp add: r nm)
  have c: "sleeps (snd run) = map (\<lambda>k. 1.2 * real k) [1 ..< n]"
    unfolding b by (rule sleeps_schedule)
  have d: "fst run = http n" by (simp add: r nm)
  have e: "\<forall>k. 1 \<le> k \<and> k < n \<longrightarrow> (\<exists>e. http k = Inl e \<and> retry_class e)"
    using early nm by simp
  have f: "n < 3 \<longrightarrow> (\<forall>e. http n = Inl e \<longrightarrow> \<not> retry_class e)"
    using stop nm by simp
  have g: "k = n \<and> fst run = Inl x"
    if h: "1 \<le> k \<and> k \<le> n \<and> http k = Inl x \<and> \<not> retry_class x" for k x
  proof -
    have "\<not> k < n"
    proof
      assume "k < n"
      with h e obtain y where "http k = Inl y" "retry_class y" by blast
      with h show False by simp
    qed
    with h have "k = n" by simp
    with h d show ?thesis by simp
  qed
  have s: "run = (Inr p, [HttpGet url timeout_seconds, Sleep (1.2 * 1),
                         HttpGet url timeout_seconds, Sleep (1.2 * 2),
                         HttpGet url timeout_seconds])
          \<and> n = 3 \<and> length (sleeps (snd run)) = 2"
    if h: "http 1 = Inl (HTTPError (Some 503)) \<and> http 2 = Inl (HTTPError (Some 503))
            \<and> http 3 = Inr p" for p
  proof -
    have rc: "retry_class (HTTPError (Some 503))" by (simp add: retry_class_def)
    from a have "n = 1 \<or> n = 2 \<or> n = 3" by arith
    moreover have "n \<noteq> 1" using f h rc by auto
    moreover have "n \<noteq> 2" using f h rc by auto
    ultimately have n3: "n = 3" by simp
    with r nm h have "run = (Inr p, schedule url timeout_seconds 3)" by simp
    then have "run = (Inr p, [HttpGet url timeout_seconds, Sleep (1.2 * 1),
                         HttpGet url timeout_seconds, Sleep (1.2 * 2),
                         HttpGet url timeout_seconds])"
      by (simp only: schedule_3)
    moreover have "length (sleeps (snd run)) = 2" unfolding c n3 by (simp add: upt_rec)
    ultimately show ?thesis using n3 by blast
  qed
  from a b c d e f g s show ?thesis by blast
qed

theorem retry_policy_witness:
  "(\<lambda>k. if k < 3 then Inl (HTTPError (Some 503)) else Inr ''ok'') (1 :: nat)
      = (Inl (HTTPError (Some 503)) :: exn + string)
   \<and> (\<lambda>k. if k < 3 then Inl (HTTPError (Some 503)) else Inr ''ok'') (2 :: nat)
      = (Inl (HTTPError (Some 503)) :: exn + string)
   \<and> (\<lambda>k. if k < 3 then Inl (HTTPError (Some 503)) else Inr ''ok'') (3 :: nat)
      = (Inr ''ok'' :: exn + string)
   \<and> get_json_with_retries (\<lambda>k. if k < 3 then Inl (HTTPError (Some 503)) else Inr ''ok'')
        ''https://lrclib.net/api/search?q=x'' 12
      = (Inr ''ok'', [HttpGet ''https://lrclib.net/api/search?q=x'' 12, Sleep (1.2 * 1),
                      HttpGet ''https://lrclib.net/api/search?q=x'' 12, Sleep (1.2 * 2),
                      HttpGet ''https://lrclib.net/api/search?q=x'' 12])
   \<and> attempts (snd (get_json_with_retries
        (\<lambda>k. if k < 3 then Inl (HTTPError (Some 503)) else Inr ''ok'')
        ''https://lrclib.net/api/search?q=x'' 12)) = 3"
proof -
  let ?http = "\<lambda>k :: nat. if k < 3 then Inl (HTTPError (Some 503)) else (Inr ''ok'' :: exn + string)"
  let ?url = "''https://lrclib.net/api/search?q=x''"
  have h1: "?http 1 = Inl (HTTPError (Some 503))" by simp
  have h2: "?http 2 = Inl (HTTPError (Some 503))" by simp
  have h3: "?http 3 = Inr ''ok''" by simp
  note T = retry_policy [of ?http ?url 12]
  from T have "\<forall>p. ?http 1 = Inl (HTTPError (Some 503)) \<and> ?http 2 = Inl (HTTPError (Some 503))
            \<and> ?http 3 = Inr p \<longrightarrow>
          get_json_with_retries ?http ?url 12
            = (Inr p, [HttpGet ?url 12, Sleep (1.2 * 1), HttpGet ?url 12, Sleep (1.2 * 2),
                       HttpGet ?url 12])
          \<and> attempts (snd (get_json_with_retries ?http ?url 12)) = 3
          \<and> length (sleeps (snd (get_json_with_retries ?http ?url 12))) = 2"
    by blast
  with h1 h2 h3 have "get_json_with_retries ?http ?url 12
            = (Inr ''ok'', [HttpGet ?url 12, Sleep (1.2 * 1), HttpGet ?url 12, Sleep (1.2 * 2),
                       HttpGet ?url 12])
          \<and> attempts (snd (get_json_with_retries ?http ?url 12)) = 3"
    by blast
  with h1 h2 h3 show ?thesis by blast
qed

subsection \<open>The resolver\<close>

lemma caught_all: "caught e"
  by (cases e) (simp_all add: caught_def)

lemma fetch_first_ok: "net url 1 = Inr p \<Longrightarrow> fetch net url = Inr p"
  by (simp add: fetch_def get_json_with_retries_def LYRICS_MAX_RETRIES_def upt_rec)

lemma resolver_both_fail:
  assumes p: "find_and_fetch_lyrics_lyricsovh net quote q = Inl p"
    and f: "find_and_fetch_lyrics_lrclib net quote q = Inl f"
  shows "find_and_fetch_lyrics net quote q =
           Inl (if is_Timeout p \<and> is_Timeout f
                  then Timeout ''Both lyrics providers timed out.''
                else if is_ValueError p \<and> is_ValueError f
                  then ValueError ''Song not found or lyrics unavailable across both providers.''
                else RequestException ''Lyrics lookup failed across both providers.'')"
  by (simp add: find_and_fetch_lyrics_def p f caught_all)

lemma resolver_error_only_if_both_fail:
  assumes "find_and_fetch_lyrics net quote q = Inl e"
  shows "\<exists>p f. find_and_fetch_lyrics_lyricsovh net quote q = Inl p
           \<and> find_and_fetch_lyrics_lrclib net quote q = Inl f"
  using assms by (auto simp: find_and_fetch_lyrics_def caught_all split: sum.splits)

lemma lyricsovh_empty:
  "fetch net (''https://api.lyrics.ovh/suggest/'' @ quote q) = Inr (JsonObject (Some []) lf) \<Longrightarrow>
     find_and_fetch_lyrics_lyricsovh net quote q
       = Inl (ValueError ''Song not found in lyrics search results.'')"
  by (simp add: find_and_fetch_lyrics_lyricsovh_def search_song_candidates_def)

lemma lrclib_empty:
  "fetch net (''https://lrclib.net/api/search?q='' @ quote q) = Inr (JsonArray []) \<Longrightarrow>
     find_and_fetch_lyrics_lrclib net quote q
       = Inl (ValueError ''Song not found in fallback lyrics search results.'')"
  by (simp add: find_and_fetch_lyrics_lrclib_def)

text \<open>
  C1. For every query and network: when both providers fail, the resolver raises one
  error fixed by the two failures, a \<^verbatim>\<open>Timeout\<close> when both are timeouts, a
  \<^verbatim>\<open>ValueError\<close> (not found) when both are \<^verbatim>\<open>ValueError\<close>s, and a plain
  \<^verbatim>\<open>RequestException\<close> in every other case; it raises only when both providers fail.
  When both searches answer with an empty result, the error is the not-found
  \<^verbatim>\<open>ValueError\<close>.
\<close>

theorem resolver_error_composition:
  "(\<forall>p f. find_and_fetch_lyrics_lyricsovh net quote q = Inl p
          \<and> find_and_fetch_lyrics_lrclib net quote q = Inl f \<longrightarrow>
        (is_Timeout p \<and> is_Timeout f \<longrightarrow>
           find_and_fetch_lyrics net quote q = Inl (Timeout ''Both lyrics providers timed out.''))
      \<and> (is_ValueError p \<and> is_ValueError f \<longrightarrow>
           find_and_fetch_lyrics net quote q
             = Inl (ValueError ''Song not found or lyrics unavailable across both providers.''))
      \<and> (\<not> (is_Timeout p \<and> is_Timeout f) \<and> \<not> (is_ValueError p \<and> is_ValueError f) \<longrightarrow>
           find_and_fetch_lyrics net quote q
             = Inl (RequestException ''Lyrics lookup failed across both providers.'')))
   \<and> (\<forall>e. find_and_fetch_lyrics net quote q = Inl e \<longrightarrow>
         (\<exists>p f. find_and_fetch_lyrics_lyricsovh net quote q = Inl p
            \<and> find_and_fetch_lyrics_lrclib net quote q = Inl f))
   \<and> (\<forall>lf. fetch net (''https://api.lyrics.ovh/suggest/'' @ quote q)
              = Inr (JsonObject (Some []) lf)
          \<and> fetch net (''https://lrclib.net/api/search?q='' @ quote q) = Inr (JsonArray []) \<longrightarrow>
         find_and_fetch_lyrics net quote q
           = Inl (ValueError ''Song not found or lyrics unavailable across both providers.''))"
proof -
  have a: "(is_Timeout p \<and> is_Timeout f \<longrightarrow>
           find_and_fetch_lyrics net quote q = Inl (Timeout ''Both lyrics providers timed out.''))
      \<and> (is_ValueError p \<and> is_ValueError f \<longrightarrow>
           find_and_fetch_lyrics net quote q
             = Inl (ValueError ''Song not found or lyrics unavailable across both providers.''))
      \<and> (\<not> (is_Timeout p \<and> is_Timeout f) \<and> \<not> (is_ValueError p \<and> is_ValueError f) \<longrightarrow>
           find_and_fetch_lyrics net quote q
             = Inl (RequestException ''Lyrics lookup failed across both providers.''))"
    if h: "find_and_fetch_lyrics_lyricsovh net quote q = Inl p
          \<and> find_and_fetch_lyrics_lrclib net quote q = Inl f" for p f
  proof -
    from h have r: "find_and_fetch_lyrics net quote q =
           Inl (if is_Timeout p \<and> is_Timeout f
                  then Timeout ''Both lyrics providers timed out.''
                else if is_ValueError p \<and> is_ValueError f
                  then ValueError ''Song not found or lyrics unavailable across both providers.''
                else RequestException ''Lyrics lookup failed across both providers.'')"
      by (simp add: resolver_both_fail)
    have x: "\<not> (is_Timeout p \<and> is_ValueError p)" by (cases p) simp_all
    show ?thesis unfolding r using x by auto
  qed
  have b: "\<exists>p f. find_and_fetch_lyrics_lyricsovh net quote q = Inl p
            \<and> find_and_fetch_lyrics_lrclib net quote q = Inl f"
    if "find_and_fetch_lyrics net quote q = Inl e" for e
    using that by (rule resolver_error_only_if_both_fail)
  have c: "find_and_fetch_lyrics net quote q
           = Inl (ValueError ''Song not found or lyrics unavailable across both providers.'')"
    if h: "fetch net (''https://api.lyrics.ovh/suggest/'' @ quote q)
              = Inr (JsonObject (Some []) lf)
          \<and> fetch net (''https://lrclib.net/api/search?q='' @ quote q) = Inr (JsonArray [])" for lf
  proof -
    from h have "find_and_fetch_lyrics_lyricsovh net quote q
       = Inl (ValueError ''Song not found in lyrics search results.'')"
      by (simp add: lyricsovh_empty)
    moreover from h have "find_and_fetch_lyrics_lrclib net quote q
       = Inl (ValueError ''Song not found in fallback lyrics search results.'')"
      by (simp add: lrclib_empty)
    ultimately show ?thesis by (simp add: resolver_both_fail)
  qed
  from a b c show ?thesis by blast
qed

theorem resolver_error_composition_witness:
  "find_and_fetch_lyrics_lyricsovh
      (\<lambda>url k. if url = ''https://lrclib.net/api/search?q=zzz-no-such-song-zzz''
                then Inr (JsonArray []) else Inr (JsonObject (Some []) Absent))
      (\<lambda>s. s) ''zzz-no-such-song-zzz''
     = Inl (ValueError ''Song not found in lyrics search results.'')
   \<and> find_and_fetch_lyrics_lrclib
      (\<lambda>url k. if url = ''https://lrclib.net/api/search?q=zzz-no-such-song-zzz''
                then Inr (JsonArray []) else Inr (JsonObject (Some []) Absent))
      (\<lambda>s. s) ''zzz-no-such-song-zzz''
     = Inl (ValueError ''Song not found in fallback lyrics search results.'')
   \<and> find_and_fetch_lyrics
      (\<lambda>url k. if url = ''https://lrclib.net/api/search?q=zzz-no-such-song-zzz''
                then Inr (JsonArray []) else Inr (JsonObject (Some []) Absent))
      (\<lambda>s. s) ''zzz-no-such-song-zzz''
     = Inl (ValueError ''Song not found or lyrics unavailable across both providers.'')
   \<and> find_and_fetch_lyrics_lyricsovh (\<lambda>url k. Inl ReadTimeout) (\<lambda>s. s) ''zzz-no-such-song-zzz''
     = Inl ReadTimeout
   \<and> find_and_fetch_lyrics_lrclib (\<lambda>url k. Inl ConnectTimeout) (\<lambda>s. s) ''zzz-no-such-song-zzz''
     = Inl ConnectTimeout
   \<and> find_and_fetch_lyrics (\<lambda>url k. Inl ReadTimeout) (\<lambda>s. s) ''zzz-no-such-song-zzz''
     = Inl (Timeout ''Both lyrics providers timed out.'')
   \<and> find_and_fetch_lyrics
      (\<lambda>url k. if url = ''https://lrclib.net/api/search?q=zzz-no-such-song-zzz''
                then Inl (HTTPError (Some 404)) else Inr (JsonObject (Some []) Absent))
      (\<lambda>s. s) ''zzz-no-such-song-zzz''
     = Inl (RequestException ''Lyrics lookup failed across both providers.'')"
proof -
  let ?q = "''zzz-no-such-song-zzz''"
  let ?quote = "\<lambda>s :: string. s"
  let ?lrclib = "''https://lrclib.net/api/search?q=zzz-no-such-song-zzz''"
  let ?N = "\<lambda>(url :: string) (k :: nat). if url = ?lrclib
                then Inr (JsonArray []) else (Inr (JsonObject (Some []) Absent) :: exn + payload)"
  let ?T = "\<lambda>(url :: string) (k :: nat). (Inl ReadTimeout :: exn + payload)"
  let ?M = "\<lambda>(url :: string) (k :: nat). if url = ?lrclib
                then Inl (HTTPError (Some 404)) else (Inr (JsonObject (Some []) Absent) :: exn + payload)"
  have n1: "fetch ?N (''https://api.lyrics.ovh/suggest/'' @ ?quote ?q)
      = Inr (JsonObject (Some []) Absent)"
    by (rule fetch_first_ok) simp
  have n2: "fetch ?N (''https://lrclib.net/api/search?q='' @ ?quote ?q) = Inr (JsonArray [])"
    by (rule fetch_first_ok) simp
  from n1 have n3: "find_and_fetch_lyrics_lyricsovh ?N ?quote ?q
      = Inl (ValueError ''Song not found in lyrics search results.'')"
    by (rule lyricsovh_empty)
  from n2 have n4: "find_and_fetch_lyrics_lrclib ?N ?quote ?q
      = Inl (ValueError ''Song not found in fallback lyrics search results.'')"
    by (rule lrclib_empty)
  from resolver_error_composition [of ?N ?quote ?q] n1 n2
  have n5: "find_and_fetch_lyrics ?N ?quote ?q
      = Inl (ValueError ''Song not found or lyrics unavailable across both providers.'')"
    by blast
  have f: "fetch ?T url = Inl ReadTimeout" for url
    by (simp add: fetch_def get_json_with_retries_def LYRICS_MAX_RETRIES_def upt_rec)
  have t1: "find_and_fetch_lyrics_lyricsovh ?T ?quote ?q = Inl ReadTimeout"
    by (simp add: find_and_fetch_lyrics_lyricsovh_def search_song_candidates_def f)
  have t2: "find_and_fetch_lyrics_lrclib ?T ?quote ?q = Inl ReadTimeout"
    by (simp add: find_and_fetch_lyrics_lrclib_def f)
  have c: "find_and_fetch_lyrics_lrclib (\<lambda>url k. Inl ConnectTimeout) ?quote ?q = Inl ConnectTimeout"
    by (simp add: find_and_fetch_lyrics_lrclib_def fetch_def get_json_with_retries_def
        LYRICS_MAX_RETRIES_def upt_rec)
  have "is_Timeout ReadTimeout \<and> is_Timeout ReadTimeout" by simp
  with resolver_error_composition [of ?T ?quote ?q] t1 t2
  have t3: "find_and_fetch_lyrics ?T ?quote ?q = Inl (Timeout ''Both lyrics providers timed out.'')"
    by blast
  have m0: "fetch ?M (''https://api.lyrics.ovh/suggest/'' @ ?quote ?q)
      = Inr (JsonObject (Some []) Absent)"
    by (rule fetch_first_ok) simp
  from m0 have m1: "find_and_fetch_lyrics_lyricsovh ?M ?quote ?q
      = Inl (ValueError ''Song not found in lyrics search results.'')"
    by (rule lyricsovh_empty)
  have m2: "find_and_fetch_lyrics_lrclib ?M ?quote ?q = Inl (HTTPError (Some 404))"
    by (simp add: find_and_fetch_lyrics_lrclib_def fetch_def get_json_with_retries_def
        LYRICS_MAX_RETRIES_def upt_rec)
  have "\<not> (is_Timeout (ValueError ''Song not found in lyrics search results.'')
          \<and> is_Timeout (HTTPError (Some 404)))
      \<and> \<not> (is_ValueError (ValueError ''Song not found in lyrics search results.'')
          \<and> is_ValueError (HTTPError (Some 404)))" by simp
  with resolver_error_composition [of ?M ?quote ?q] m1 m2
  have m3: "find_and_fetch_lyrics ?M ?quote ?q
      = Inl (RequestException ''Lyrics lookup failed across both providers.'')"
    by blast
  from n3 n4 n5 t1 c t3 m3 show ?thesis by blast
qed

end
